theory Spec2Isabelle
  imports Main "HOL-Library.AList"
begin

section \<open>Shared helpers\<close>

text \<open>
  Clock readings (\<open>datetime.utcnow()\<close>, \<open>time.time()\<close>) are passed to the operations
  as an argument; they are only stored, never computed with.
\<close>

type_synonym timestamp = nat

text \<open>Decimal rendering of a natural number, as an f-string does for a Python int.\<close>

definition digit_char :: "nat \<Rightarrow> char" where
  "digit_char d = ''0123456789'' ! d"

function str_of_nat :: "nat \<Rightarrow> string" where
  "str_of_nat n = (if n < 10 then [digit_char n] else str_of_nat (n div 10) @ [digit_char (n mod 10)])"
  by pat_completeness auto
termination
  by (relation "measure id") auto

declare str_of_nat.simps [simp del]

section \<open>Interrupt controller (core/interrupt.py)\<close>

datatype InterruptType = NONE | SOFT | HARD

datatype InterruptReason = USER_REQUEST | TIMEOUT | ERROR | SHUTDOWN

record InterruptState =
  requested :: bool
  interrupt_type :: InterruptType
  reason :: InterruptReason
  message :: "string option"
  timestamp :: "timestamp option"

text \<open>The dataclass defaults of \<open>InterruptState()\<close>.\<close>

definition InterruptState_default :: InterruptState where
  "InterruptState_default =
     \<lparr>requested = False, interrupt_type = NONE, reason = USER_REQUEST,
      message = None, timestamp = None\<rparr>"

text \<open>
  The controller object. \<open>interrupt_event\<close> is the flag of the \<open>asyncio.Event\<close>.
  A callback is modelled by what the controller can see of it: \<open>None\<close> when it returns,
  \<open>Some e\<close> when it raises \<open>e\<close>.
\<close>

record InterruptController =
  state :: InterruptState
  interrupt_event :: bool
  callbacks :: "(InterruptState \<Rightarrow> string option) list"
  interrupt_count :: int
  soft_interrupt_limit :: int

definition InterruptController_init :: "int \<Rightarrow> InterruptController" where
  "InterruptController_init lim =
     \<lparr>state = InterruptState_default, interrupt_event = False, callbacks = [],
      interrupt_count = 0, soft_interrupt_limit = lim\<rparr>"

text \<open>
  \<open>request_interrupt\<close>: the counter is incremented first, then compared with the limit;
  above the limit the type and the message are overwritten. The second component of the
  result is the list of logged callback errors.
\<close>

definition request_interrupt ::
  "InterruptController \<Rightarrow> InterruptType \<Rightarrow> InterruptReason \<Rightarrow> string option \<Rightarrow> timestamp
     \<Rightarrow> InterruptController \<times> string list" where
  "request_interrupt c ty rs msg now =
     (let n = interrupt_count c + 1;
          escalate = (n > soft_interrupt_limit c);
          ty' = (if escalate then HARD else ty);
          msg' = (if escalate
                  then Some (''Escalated to HARD interrupt after '' @ str_of_nat (nat n) @ '' requests'')
                  else msg);
          st = \<lparr>requested = True, interrupt_type = ty', reason = rs,
                message = msg', timestamp = Some now\<rparr>;
          c' = c\<lparr>interrupt_count := n, state := st, interrupt_event := True\<rparr>
      in (c', List.map_filter (\<lambda>cb. cb st) (callbacks c')))"

definition check_interrupt :: "InterruptController \<Rightarrow> InterruptState option" where
  "check_interrupt c = (if requested (state c) then Some (state c) else None)"

definition reset :: "InterruptController \<Rightarrow> InterruptController" where
  "reset c = c\<lparr>state := InterruptState_default, interrupt_event := False, interrupt_count := 0\<rparr>"

section \<open>Task model (tasks/models.py)\<close>

datatype TaskStatus = PENDING | IN_PROGRESS | BLOCKED | COMPLETED | FAILED | CANCELLED

datatype TaskPriority = CRITICAL | HIGH | MEDIUM | LOW

text \<open>
  The fields of \<open>Task\<close> that the task manager and the completion handlers read or write.
  (\<open>description\<close>, \<open>assigned_to\<close>, \<open>skill_required\<close>, \<open>created_at\<close> and \<open>todo_list\<close>
  are carried along untouched by every function below and are left out.)
  The field \<open>id\<close> is called \<open>tid\<close> here. \<open>result\<close> is a string when it is set.
\<close>

record Task =
  tid :: string
  title :: string
  status :: TaskStatus
  priority :: TaskPriority
  parent_id :: "string option"
  subtasks :: "string list"
  depends_on :: "string list"
  blocks :: "string list"
  updated_at :: timestamp
  completed_at :: "timestamp option"
  result :: "string option"
  error :: "string option"

text \<open>The defaults of the pydantic model, for a task made with an id, a title and a clock reading.\<close>

definition Task_new :: "string \<Rightarrow> string \<Rightarrow> timestamp \<Rightarrow> Task" where
  "Task_new i ttl now =
     \<lparr>tid = i, title = ttl, status = PENDING, priority = MEDIUM, parent_id = None,
      subtasks = [], depends_on = [], blocks = [], updated_at = now, completed_at = None,
      result = None, error = None\<rparr>"

section \<open>Task manager (tasks/manager.py)\<close>

text \<open>
  \<open>self.tasks\<close> is a Python dict from ids to task objects. A dict iterates in insertion
  order and an assignment to an existing key keeps the key's position, which is what
  \<open>AList.update\<close> does on an association list. Task objects are mutated in place through
  the references the dict holds; with one object per key this is an update of the entry.
\<close>

type_synonym task_store = "(string \<times> Task) list"

record TaskConfig =
  max_pending_tasks :: int
  auto_block_on_dependency :: bool

definition TaskConfig_default :: TaskConfig where
  "TaskConfig_default = \<lparr>max_pending_tasks = 100, auto_block_on_dependency = True\<rparr>"

text \<open>The exceptions the task manager raises.\<close>

datatype task_error =
    MaxPendingTasks int
  | TaskNotFound string
  | DependencyTaskNotFound string
  | SelfDependency
  | WouldCreateCycle string string
  | DependencyCycleDetected

definition get_task :: "task_store \<Rightarrow> string \<Rightarrow> Task option" where
  "get_task m task_id = map_of m task_id"

text \<open>\<open>create_task\<close>: the result pairs the outcome with the store after the call.\<close>

definition create_task :: "TaskConfig \<Rightarrow> task_store \<Rightarrow> Task \<Rightarrow> (task_error + Task) \<times> task_store" where
  "create_task cfg m task =
     (let pending_count = int (length (filter (\<lambda>t. status t = PENDING) (map snd m)))
      in if pending_count \<ge> max_pending_tasks cfg
         then (Inl (MaxPendingTasks (max_pending_tasks cfg)), m)
         else (Inr task, AList.update (tid task) task m))"

text \<open>
  \<open>update_task\<close> takes a dict of attribute names and values. The entries the callers in
  this development pass are modelled; \<open>setattr\<close> stores whatever value is given.
\<close>

datatype field_update =
    Set_status TaskStatus
  | Set_result "string option"
  | Set_error "string option"
  | Set_depends_on "string list"
  | Set_blocks "string list"

fun setattr :: "field_update \<Rightarrow> Task \<Rightarrow> Task" where
  "setattr (Set_status s) t = t\<lparr>status := s\<rparr>"
| "setattr (Set_result r) t = t\<lparr>result := r\<rparr>"
| "setattr (Set_error e) t = t\<lparr>error := e\<rparr>"
| "setattr (Set_depends_on ds) t = t\<lparr>depends_on := ds\<rparr>"
| "setattr (Set_blocks bs) t = t\<lparr>blocks := bs\<rparr>"

definition update_task ::
  "task_store \<Rightarrow> string \<Rightarrow> field_update list \<Rightarrow> timestamp \<Rightarrow> (task_error + Task) \<times> task_store" where
  "update_task m task_id updates now =
     (case get_task m task_id of
        None \<Rightarrow> (Inl (TaskNotFound task_id), m)
      | Some task \<Rightarrow>
          let t1 = fold setattr updates task;
              t2 = t1\<lparr>updated_at := now\<rparr>;
              t3 = (if status t2 = COMPLETED \<and> completed_at t2 = None
                    then t2\<lparr>completed_at := Some now\<rparr> else t2)
          in (Inr t3, AList.update task_id t3 m))"

definition delete_task :: "task_store \<Rightarrow> string \<Rightarrow> bool \<times> task_store" where
  "delete_task m task_id =
     (if task_id \<in> set (map fst m) then (True, AList.delete task_id m) else (False, m))"

definition list_tasks :: "task_store \<Rightarrow> TaskStatus option \<Rightarrow> string option \<Rightarrow> Task list" where
  "list_tasks m st par =
     (let tasks = map snd m;
          tasks1 = (case st of None \<Rightarrow> tasks | Some s \<Rightarrow> filter (\<lambda>t. status t = s) tasks);
          tasks2 = (case par of None \<Rightarrow> tasks1
                    | Some p \<Rightarrow> filter (\<lambda>t. parent_id t = Some p) tasks1)
      in tasks2)"

text \<open>
  The loop \<open>for i in ids: t = get_task(i); if not t or t.status != COMPLETED: return False\<close>,
  which \<open>_is_task_executable\<close> runs over \<open>depends_on\<close> and over \<open>subtasks\<close>.
\<close>

definition task_completed :: "task_store \<Rightarrow> string \<Rightarrow> bool" where
  "task_completed m i = (case get_task m i of None \<Rightarrow> False | Some t \<Rightarrow> status t = COMPLETED)"

definition all_completed :: "task_store \<Rightarrow> string list \<Rightarrow> bool" where
  "all_completed m ids = list_all (task_completed m) ids"

text \<open>
  \<open>if task.parent_id:\<close> is Python truthiness: the branch is taken when \<open>parent_id\<close> is
  a non-empty string, so \<open>None\<close> and the empty string both count as "no parent".
\<close>

definition is_task_executable :: "task_store \<Rightarrow> Task \<Rightarrow> bool" where
  "is_task_executable m task =
     (if \<not> all_completed m (depends_on task) then False
      else if \<not> all_completed m (subtasks task) then False
      else (case parent_id task of
              None \<Rightarrow> True
            | Some p \<Rightarrow>
                if p = [] then True
                else (case get_task m p of
                        None \<Rightarrow> False
                      | Some parent \<Rightarrow> status parent = IN_PROGRESS \<or> status parent = COMPLETED)))"

fun priority_order :: "TaskPriority \<Rightarrow> nat" where
  "priority_order CRITICAL = 0"
| "priority_order HIGH = 1"
| "priority_order MEDIUM = 2"
| "priority_order LOW = 3"

text \<open>
  \<open>get_next_executable_task\<close>. Python's \<open>list.sort(key=...)\<close> is stable, as \<open>sort_key\<close> is;
  \<open>executable_tasks[0]\<close> is read only after the list was found non-empty.
\<close>

definition get_next_executable_task :: "task_store \<Rightarrow> Task option" where
  "get_next_executable_task m =
     (let pending_tasks = list_tasks m (Some PENDING) None
      in if pending_tasks = [] then None
         else let executable_tasks = filter (is_task_executable m) pending_tasks
              in if executable_tasks = [] then None
                 else Some (hd (sort_key (\<lambda>t. priority_order (priority t)) executable_tasks)))"

text \<open>
  \<open>_has_cycle_dfs\<close>: depth-first search along \<open>depends_on\<close> from \<open>start\<close>, looking for
  \<open>target\<close>. The set \<open>visited\<close> is one mutable object shared by all recursive calls, so
  the model returns it next to the answer. \<open>has_cycle_dfs_loop\<close> is the \<open>for dep_id in
  task.depends_on\<close> loop, which returns at the first dependency that reaches the target.
\<close>

function has_cycle_dfs :: "task_store \<Rightarrow> string \<Rightarrow> string \<Rightarrow> string set \<Rightarrow> bool \<times> string set"
  and has_cycle_dfs_loop :: "task_store \<Rightarrow> string list \<Rightarrow> string \<Rightarrow> string set \<Rightarrow> bool \<times> string set"
where
  "has_cycle_dfs m start target visited =
     (if start = target then (True, visited)
      else if start \<in> visited then (False, visited)
      else (case get_task m start of
              None \<Rightarrow> (False, insert start visited)
            | Some task \<Rightarrow> has_cycle_dfs_loop m (depends_on task) target (insert start visited)))"
| "has_cycle_dfs_loop m [] target visited = (False, visited)"
| "has_cycle_dfs_loop m (dep_id # rest) target visited =
     (let (found, visited') = has_cycle_dfs m dep_id target visited
      in if found then (True, visited') else has_cycle_dfs_loop m rest target visited')"
  by pat_completeness auto

lemma has_cycle_dfs_visited_mono:
  "has_cycle_dfs_has_cycle_dfs_loop_dom (Inl (m, start, target, visited))
     \<Longrightarrow> visited \<subseteq> snd (has_cycle_dfs m start target visited)"
  "has_cycle_dfs_has_cycle_dfs_loop_dom (Inr (m, ds, target, visited))
     \<Longrightarrow> visited \<subseteq> snd (has_cycle_dfs_loop m ds target visited)"
proof (induction m start target visited and m ds target visited rule: has_cycle_dfs_has_cycle_dfs_loop.pinduct)
  case (1 m start target visited)
  then show ?case
    by (auto simp: has_cycle_dfs.psimps split: option.splits)
next
  case (2 m target visited)
  then show ?case by (simp add: has_cycle_dfs_loop.psimps)
next
  case (3 m dep_id rest target visited)
  show ?case
  proof (cases "has_cycle_dfs m dep_id target visited")
    case (Pair found visited')
    with 3 have a: "visited \<subseteq> visited'" by simp
    show ?thesis
    proof (cases found)
      case True
      with Pair a 3(1) show ?thesis by (simp add: has_cycle_dfs_loop.psimps)
    next
      case False
      with 3(3) [of "(found, visited')" found visited'] Pair
      have "visited' \<subseteq> snd (has_cycle_dfs_loop m rest target visited')" by simp
      with Pair a False 3(1) show ?thesis by (auto simp: has_cycle_dfs_loop.psimps)
    qed
  qed
qed

lemma get_task_Some_key: "get_task m k = Some t \<Longrightarrow> k \<in> fst ` set m"
  by (auto simp: get_task_def dest: map_of_SomeD intro: rev_image_eqI)

lemma card_unvisited_insert:
  assumes "k \<in> fst ` set m" "k \<notin> v"
  shows "card (fst ` set m - insert k v) < card (fst ` set m - v)"
proof (rule psubset_card_mono)
  show "finite (fst ` set m - v)" by simp
  from assms show "fst ` set m - insert k v \<subset> fst ` set m - v" by blast
qed

lemma card_unvisited_mono:
  assumes "v \<subseteq> v'"
  shows "card (fst ` set m - v') \<le> card (fst ` set m - v)"
proof (rule card_mono)
  show "finite (fst ` set m - v)" by simp
  from assms show "fst ` set m - v' \<subseteq> fst ` set m - v" by blast
qed

text \<open>
  Termination: a call that looks a task up marks a stored, unvisited id as visited, and the
  loop only ever receives a larger visited set back.
\<close>

definition dfs_rank ::
  "task_store \<times> string \<times> string \<times> string set + task_store \<times> string list \<times> string \<times> string set
     \<Rightarrow> nat \<times> nat" where
  "dfs_rank x =
     (case x of
        Inl (m, start, target, visited) \<Rightarrow> (card (fst ` set m - visited), 0)
      | Inr (m, ds, target, visited) \<Rightarrow> (card (fst ` set m - visited), Suc (length ds)))"

termination has_cycle_dfs
proof (relation "inv_image (less_than <*lex*> less_than) dfs_rank")
  show "wf (inv_image (less_than <*lex*> less_than) dfs_rank)"
    by (intro wf_inv_image wf_lex_prod wf_less_than)
next
  fix m :: task_store and start target visited task
  assume "start \<noteq> target" "start \<notin> visited" "get_task m start = Some task"
  then have "card (fst ` set m - insert start visited) < card (fst ` set m - visited)"
    by (intro card_unvisited_insert get_task_Some_key)
  then show "(Inr (m, depends_on task, target, insert start visited), Inl (m, start, target, visited))
      \<in> inv_image (less_than <*lex*> less_than) dfs_rank"
    by (simp add: dfs_rank_def)
next
  fix m :: task_store and dep_id rest target visited
  show "(Inl (m, dep_id, target, visited), Inr (m, dep_id # rest, target, visited))
      \<in> inv_image (less_than <*lex*> less_than) dfs_rank"
    by (simp add: dfs_rank_def)
next
  fix m :: task_store and dep_id rest target visited x found visited'
  assume x: "x = has_cycle_dfs m dep_id target visited" "(found, visited') = x"
    and dom: "has_cycle_dfs_has_cycle_dfs_loop_dom (Inl (m, dep_id, target, visited))"
  from has_cycle_dfs_visited_mono(1) [OF dom] x have "visited \<subseteq> visited'"
    by (metis snd_conv)
  then have "card (fst ` set m - visited') \<le> card (fst ` set m - visited)"
    by (rule card_unvisited_mono)
  then show "(Inr (m, rest, target, visited'), Inr (m, dep_id # rest, target, visited))
      \<in> inv_image (less_than <*lex*> less_than) dfs_rank"
    by (auto simp: dfs_rank_def)
qed

declare has_cycle_dfs.simps [simp del]

text \<open>\<open>_has_dependency_cycle\<close> starts the search at the new dependency with an empty set.\<close>

definition has_dependency_cycle :: "task_store \<Rightarrow> string \<Rightarrow> string \<Rightarrow> bool" where
  "has_dependency_cycle m task_id new_dependency_id =
     fst (has_cycle_dfs m new_dependency_id task_id {})"

text \<open>
  \<open>add_dependency\<close>. Every \<open>raise\<close> comes before the first mutation. Past the
  self-dependency check \<open>task\<close> and \<open>depends_on_task\<close> are two objects, mutated in place
  under their keys (\<open>AList.map_entry\<close>); the conditions read fields that the earlier
  mutations of the same call do not write. The first component of the result is the
  exception raised, if any.
\<close>

definition add_dependency ::
  "TaskConfig \<Rightarrow> task_store \<Rightarrow> string \<Rightarrow> string \<Rightarrow> timestamp \<Rightarrow> task_error option \<times> task_store" where
  "add_dependency cfg m task_id depends_on_id now =
     (case get_task m task_id of
        None \<Rightarrow> (Some (TaskNotFound task_id), m)
      | Some task \<Rightarrow>
     (case get_task m depends_on_id of
        None \<Rightarrow> (Some (DependencyTaskNotFound depends_on_id), m)
      | Some depends_on_task \<Rightarrow>
          if task_id = depends_on_id then (Some SelfDependency, m)
          else if has_dependency_cycle m task_id depends_on_id
          then (Some (WouldCreateCycle task_id depends_on_id), m)
          else
            let m1 = (if depends_on_id \<notin> set (depends_on task)
                      then AList.map_entry task_id
                             (\<lambda>t. t\<lparr>depends_on := depends_on t @ [depends_on_id], updated_at := now\<rparr>) m
                      else m);
                m2 = (if task_id \<notin> set (blocks depends_on_task)
                      then AList.map_entry depends_on_id
                             (\<lambda>t. t\<lparr>blocks := blocks t @ [task_id], updated_at := now\<rparr>) m1
                      else m1);
                m3 = (if auto_block_on_dependency cfg \<and> status depends_on_task \<noteq> COMPLETED
                      then (if status task = PENDING
                            then AList.map_entry task_id (\<lambda>t. t\<lparr>status := BLOCKED\<rparr>) m2
                            else m2)
                      else m2)
            in (None, m3)))"

text \<open>
  \<open>remove_dependency\<close>. \<open>list.remove\<close> deletes the first occurrence (\<open>remove1\<close>). There
  is no self-dependency check here, so both names may denote one object; the two mutations
  write different fields of it.
\<close>

definition remove_dependency ::
  "task_store \<Rightarrow> string \<Rightarrow> string \<Rightarrow> timestamp \<Rightarrow> task_error option \<times> task_store" where
  "remove_dependency m task_id depends_on_id now =
     (case get_task m task_id of
        None \<Rightarrow> (Some (TaskNotFound task_id), m)
      | Some task \<Rightarrow>
     (case get_task m depends_on_id of
        None \<Rightarrow> (Some (DependencyTaskNotFound depends_on_id), m)
      | Some depends_on_task \<Rightarrow>
          let m1 = (if depends_on_id \<in> set (depends_on task)
                    then AList.map_entry task_id
                           (\<lambda>t. t\<lparr>depends_on := remove1 depends_on_id (depends_on t), updated_at := now\<rparr>) m
                    else m);
              m2 = (if task_id \<in> set (blocks depends_on_task)
                    then AList.map_entry depends_on_id
                           (\<lambda>t. t\<lparr>blocks := remove1 task_id (blocks t), updated_at := now\<rparr>) m1
                    else m1)
          in (None, m2)))"

text \<open>
  \<open>load_state\<close>, past the file access: every entry of the document's \<open>tasks\<close> object is
  re-hydrated and stored under its key, over whatever the store held.
\<close>

definition load_state :: "task_store \<Rightarrow> (string \<times> Task) list \<Rightarrow> task_store" where
  "load_state m doc = fold (\<lambda>(task_id, task) acc. AList.update task_id task acc) doc m"

text \<open>
  \<open>get_execution_order\<close>. \<open>in_degree\<close> and \<open>task_map\<close> are dicts filled in the order of
  \<open>task_ids\<close>; ids that are not stored are skipped. The in-degree of a task is
  \<open>len(task.depends_on)\<close>: every dependency counts, whether or not it is among \<open>task_ids\<close>.
\<close>

definition build_maps ::
  "task_store \<Rightarrow> string list \<Rightarrow> (string \<times> int) list \<times> (string \<times> Task) list" where
  "build_maps m task_ids =
     fold (\<lambda>task_id (in_degree, task_map).
             case get_task m task_id of
               None \<Rightarrow> (in_degree, task_map)
             | Some task \<Rightarrow>
                 (AList.update task_id (int (length (depends_on task))) in_degree,
                  AList.update task_id task task_map))
          task_ids ([], [])"

text \<open>
  The inner loop \<open>for blocked_id in task.blocks\<close>: an id that has an in-degree is
  decremented and joins the queue when it reaches zero.
\<close>

fun release :: "string list \<Rightarrow> (string \<times> int) list \<times> string list \<Rightarrow> (string \<times> int) list \<times> string list" where
  "release [] (in_degree, queue) = (in_degree, queue)"
| "release (blocked_id # rest) (in_degree, queue) =
     (case map_of in_degree blocked_id of
        None \<Rightarrow> release rest (in_degree, queue)
      | Some d \<Rightarrow>
          release rest (AList.update blocked_id (d - 1) in_degree,
                        if d - 1 = 0 then queue @ [blocked_id] else queue))"

definition positive_degrees :: "(string \<times> int) list \<Rightarrow> nat" where
  "positive_degrees in_degree = length (filter (\<lambda>e. snd e > 0) in_degree)"

lemma positive_degrees_update:
  "map_of in_degree k = Some d \<Longrightarrow>
     positive_degrees (AList.update k v in_degree) + (if d > 0 then 1 else 0)
       = positive_degrees in_degree + (if v > 0 then 1 else 0)"
proof (induction in_degree)
  case Nil
  then show ?case by simp
next
  case (Cons e in_degree)
  then show ?case
    by (cases e) (auto simp: positive_degrees_def split: if_splits)
qed

lemma release_measure:
  "release bs (in_degree, queue) = (in_degree', queue') \<Longrightarrow>
     length queue' + positive_degrees in_degree' = length queue + positive_degrees in_degree"
proof (induction bs arbitrary: in_degree queue)
  case Nil
  then show ?case by simp
next
  case (Cons b bs)
  show ?case
  proof (cases "map_of in_degree b")
    case None
    with Cons show ?thesis by simp
  next
    case (Some d)
    let ?deg = "AList.update b (d - 1) in_degree"
    let ?q = "if d - 1 = 0 then queue @ [b] else queue"
    from Cons.prems Some have "release bs (?deg, ?q) = (in_degree', queue')" by simp
    then have "length queue' + positive_degrees in_degree' = length ?q + positive_degrees ?deg"
      by (rule Cons.IH)
    also have "\<dots> = length queue + positive_degrees in_degree"
      using positive_degrees_update [OF Some, of "d - 1"] by (cases "d = 1") (auto split: if_splits)
    finally show ?thesis .
  qed
qed

text \<open>The \<open>while queue:\<close> loop; \<open>queue.pop(0)\<close> takes the head.\<close>

function kahn_loop ::
  "(string \<times> Task) list \<Rightarrow> (string \<times> int) list \<Rightarrow> string list \<Rightarrow> Task list \<Rightarrow> Task list" where
  "kahn_loop task_map in_degree [] acc = acc"
| "kahn_loop task_map in_degree (task_id # queue) acc =
     (case map_of task_map task_id of
        None \<Rightarrow> kahn_loop task_map in_degree queue acc
      | Some task \<Rightarrow>
          (case release (blocks task) (in_degree, queue) of
             (in_degree', queue') \<Rightarrow> kahn_loop task_map in_degree' queue' (acc @ [task])))"
  by pat_completeness auto
termination
proof (relation "measure (\<lambda>(task_map, in_degree, queue, acc). length queue + positive_degrees in_degree)")
  show "wf (measure (\<lambda>(task_map, in_degree, queue, acc). length queue + positive_degrees in_degree))"
    by simp
next
  fix task_map :: "(string \<times> Task) list" and in_degree :: "(string \<times> int) list"
    and task_id :: string and queue :: "string list" and acc :: "Task list"
  show "((task_map, in_degree, queue, acc), (task_map, in_degree, task_id # queue, acc))
      \<in> measure (\<lambda>(task_map, in_degree, queue, acc). length queue + positive_degrees in_degree)"
    by simp
next
  fix task_map :: "(string \<times> Task) list" and in_degree :: "(string \<times> int) list"
    and task_id :: string and queue :: "string list" and acc :: "Task list"
    and task :: Task and in_degree' queue'
  assume "(in_degree', queue') = release (blocks task) (in_degree, queue)"
  then have "length queue' + positive_degrees in_degree' = length queue + positive_degrees in_degree"
    by (intro release_measure [of "blocks task"]) simp
  then show "((task_map, in_degree', queue', acc @ [task]), (task_map, in_degree, task_id # queue, acc))
      \<in> measure (\<lambda>(task_map, in_degree, queue, acc). length queue + positive_degrees in_degree)"
    by simp
qed

definition get_execution_order :: "task_store \<Rightarrow> string list \<Rightarrow> task_error + Task list" where
  "get_execution_order m task_ids =
     (case build_maps m task_ids of
        (in_degree, task_map) \<Rightarrow>
          let queue = filter (\<lambda>tid'. (case map_of in_degree tid' of None \<Rightarrow> 0 | Some d \<Rightarrow> d) = 0) task_ids;
              acc = kahn_loop task_map in_degree queue []
          in if length acc \<noteq> length task_map then Inl DependencyCycleDetected
             else Inr acc)"

section \<open>Completion propagation (core/orchestrator.py)\<close>

text \<open>
  The orchestrator reaches the task store only through the task manager. The hook
  triggers in these functions observe the tasks and do not write them, so they do not
  appear in the store-passing model. An exception raised by \<open>update_task\<close> would leave the
  function at once; the results are sums for that reason.
\<close>

text \<open>
  One round of the loop of \<open>_unblock_dependent_tasks\<close>, for one id of \<open>blocks\<close>. The inner
  loop over \<open>blocked_task.depends_on\<close> with its \<open>break\<close> is \<open>all_completed\<close>.
\<close>

definition unblock_step :: "timestamp \<Rightarrow> string \<Rightarrow> task_store \<Rightarrow> task_error + task_store" where
  "unblock_step now blocked_task_id m =
     (case get_task m blocked_task_id of
        None \<Rightarrow> Inr m
      | Some blocked_task \<Rightarrow>
          if status blocked_task \<noteq> BLOCKED then Inr m
          else if all_completed m (depends_on blocked_task)
          then (case update_task m blocked_task_id [Set_status PENDING] now of
                  (Inl e, _) \<Rightarrow> Inl e
                | (Inr _, m') \<Rightarrow> Inr m')
          else Inr m)"

fun unblock_loop :: "timestamp \<Rightarrow> string list \<Rightarrow> task_store \<Rightarrow> task_error + task_store" where
  "unblock_loop now [] m = Inr m"
| "unblock_loop now (blocked_task_id # rest) m =
     (case unblock_step now blocked_task_id m of
        Inl e \<Rightarrow> Inl e
      | Inr m' \<Rightarrow> unblock_loop now rest m')"

definition unblock_dependent_tasks :: "task_store \<Rightarrow> string \<Rightarrow> timestamp \<Rightarrow> task_error + task_store" where
  "unblock_dependent_tasks m completed_task_id now =
     (case get_task m completed_task_id of
        None \<Rightarrow> Inr m
      | Some completed_task \<Rightarrow> unblock_loop now (blocks completed_task) m)"

text \<open>
  \<open>_check_parent_completion\<close>. The recursion climbs to the parent's parent only after it
  has turned an IN_PROGRESS task into a COMPLETED one, so the number of IN_PROGRESS
  entries bounds it, whatever the \<open>parent_id\<close> pointers look like.
\<close>

definition in_progress_count :: "task_store \<Rightarrow> nat" where
  "in_progress_count m = length (filter (\<lambda>e. status (snd e) = IN_PROGRESS) m)"

definition auto_complete_result :: "Task \<Rightarrow> string" where
  "auto_complete_result parent =
     ''All '' @ str_of_nat (length (subtasks parent)) @ '' subtasks completed successfully''"

function check_parent_completion :: "task_store \<Rightarrow> string \<Rightarrow> timestamp \<Rightarrow> task_error + task_store" where
  "check_parent_completion m pid now =
     (case get_task m pid of
        None \<Rightarrow> Inr m
      | Some parent \<Rightarrow>
          if status parent \<noteq> IN_PROGRESS then Inr m
          else if all_completed m (subtasks parent) \<and> subtasks parent \<noteq> []
          then (case update_task m pid
                       [Set_status COMPLETED, Set_result (Some (auto_complete_result parent))] now of
                  (Inl e, _) \<Rightarrow> Inl e
                | (Inr _, m') \<Rightarrow>
                    (case parent_id parent of
                       None \<Rightarrow> Inr m'
                     | Some grandparent \<Rightarrow>
                         if grandparent = [] then Inr m'
                         else check_parent_completion m' grandparent now))
          else Inr m)"
  by pat_completeness auto

lemma in_progress_count_update:
  assumes "map_of m k = Some p" "status p = IN_PROGRESS" "status v \<noteq> IN_PROGRESS"
  shows "in_progress_count (AList.update k v m) < in_progress_count m"
  using assms
proof (induction m)
  case Nil
  then show ?case by simp
next
  case (Cons e m)
  then show ?case
    by (cases e) (auto simp: in_progress_count_def split: if_splits)
qed

lemma update_task_completed_count:
  assumes "update_task m k (Set_status COMPLETED # ups) now = (Inr t, m')"
    and "get_task m k = Some p" "status p = IN_PROGRESS"
    and "\<forall>u \<in> set ups. \<forall>s. u \<noteq> Set_status s"
  shows "in_progress_count m' < in_progress_count m"
proof -
  have keep: "status (fold setattr ups x) = status x" if "\<forall>u \<in> set ups. \<forall>s. u \<noteq> Set_status s" for x ups
    using that
  proof (induction ups arbitrary: x)
    case Nil
    then show ?case by simp
  next
    case (Cons u ups)
    then show ?case by (cases u) auto
  qed
  from assms(4) have "status (fold setattr ups (p\<lparr>status := COMPLETED\<rparr>)) = COMPLETED"
    by (simp add: keep)
  with assms(1,2) obtain v where "m' = AList.update k v m" "status v = COMPLETED"
    by (auto simp: update_task_def Let_def split: if_splits)
  with assms(2,3) show ?thesis
    by (simp add: get_task_def in_progress_count_update)
qed

termination check_parent_completion
proof (relation "measure (\<lambda>(m, pid, now). in_progress_count m)")
  show "wf (measure (\<lambda>(m, pid, now). in_progress_count m))" by simp
next
  fix m :: task_store and pid now parent x m' y grandparent
  assume "get_task m pid = Some parent" "\<not> status parent \<noteq> IN_PROGRESS"
    and "(x, m') = update_task m pid
           [Set_status COMPLETED, Set_result (Some (auto_complete_result parent))] now"
    and "x = Inr y"
  then have "in_progress_count m' < in_progress_count m"
    using update_task_completed_count
            [of m pid "[Set_result (Some (auto_complete_result parent))]" now y m' parent]
    by simp
  then show "((m', grandparent, now), (m, pid, now)) \<in> measure (\<lambda>(m, pid, now). in_progress_count m)"
    by simp
qed

declare check_parent_completion.simps [simp del]

text \<open>\<open>_handle_task_completion\<close>: unblock the dependents, then look at the parent.\<close>

definition handle_task_completion :: "task_store \<Rightarrow> string \<Rightarrow> timestamp \<Rightarrow> task_error + task_store" where
  "handle_task_completion m completed_task_id now =
     (case unblock_dependent_tasks m completed_task_id now of
        Inl e \<Rightarrow> Inl e
      | Inr m1 \<Rightarrow>
          (case get_task m1 completed_task_id of
             None \<Rightarrow> Inr m1
           | Some completed_task \<Rightarrow>
               (case parent_id completed_task of
                  None \<Rightarrow> Inr m1
                | Some p \<Rightarrow> if p = [] then Inr m1 else check_parent_completion m1 p now)))"

section \<open>Hook engine (hooks/base.py, hooks/engine.py)\<close>

text \<open>
  \<open>data\<close> and \<open>metadata\<close> are dicts from strings to arbitrary values; the values are
  opaque to the engine and are strings here. \<open>dict.update\<close> overwrites the keys it finds
  and appends the others. The \<open>orchestrator_state\<close> reference of the context is only
  handed through and is left out.
\<close>

type_synonym hook_dict = "(string \<times> string) list"

definition dict_update :: "hook_dict \<Rightarrow> hook_dict \<Rightarrow> hook_dict" where
  "dict_update d patch = fold (\<lambda>(k, v) acc. AList.update k v acc) patch d"

record HookContext =
  ctx_event :: string
  ctx_data :: hook_dict
  ctx_metadata :: hook_dict

record HookResult =
  hr_action :: string
  hr_reason :: "string option"
  hr_modified_context :: "hook_dict option"
  hr_metadata :: "hook_dict option"

text \<open>\<open>HookResult(action="continue")\<close> with the other dataclass defaults.\<close>

definition HookResult_continue :: HookResult where
  "HookResult_continue =
     \<lparr>hr_action = ''continue'', hr_reason = None, hr_modified_context = None, hr_metadata = None\<rparr>"

text \<open>
  A call of a hook method either returns a value or raises. What is raised is an
  \<open>Exception\<close> (an instance of that class or of a subclass) or one of the other
  \<open>BaseException\<close>s, which \<open>except Exception\<close> does not catch: \<open>asyncio.CancelledError\<close>
  (the cancellation of the awaiting task, as by \<open>asyncio.wait_for\<close>), \<open>KeyboardInterrupt\<close>,
  \<open>SystemExit\<close>, \<open>GeneratorExit\<close>. Each carries its text. A hook is modelled by its name
  (the class name used in the log lines) and its two methods as functions of the context
  it is given.
\<close>

datatype raised = Exception string | BaseException string

datatype 'a attempt = Raised raised | Returned 'a

record Hook =
  hook_name :: string
  should_run :: "HookContext \<Rightarrow> bool attempt"
  execute :: "HookContext \<Rightarrow> HookResult attempt"

record HookEngine =
  hooks :: "(string \<times> (int \<times> Hook) list) list"
  enabled :: bool

text \<open>\<open>register\<close> appends the hook to the event's list and sorts the list by priority.\<close>

definition register :: "HookEngine \<Rightarrow> string \<Rightarrow> Hook \<Rightarrow> int \<Rightarrow> HookEngine" where
  "register eng event hook priority' =
     (let old = (case map_of (hooks eng) event of None \<Rightarrow> [] | Some l \<Rightarrow> l)
      in eng\<lparr>hooks := AList.update event (sort_key fst (old @ [(priority', hook)])) (hooks eng)\<rparr>)"

text \<open>
  The lines of the engine's log that tell what happened to a hook: it was skipped
  (\<open>should_run\<close> false), its \<open>execute\<close> returned, or a call raised and the error was logged.
\<close>

datatype hook_log = Skipped string | Executed string | Failed string string

text \<open>
  The loop \<open>for priority, hook in all_hooks\<close> of \<open>trigger\<close>, with the \<open>try\<close>/\<open>except Exception\<close>
  around each round. The patches of a result are applied before its action is looked at;
  \<open>if result.modified_context:\<close> and \<open>result.reason or "Blocked by hook"\<close> are truthiness
  tests, false for \<open>None\<close> and for the empty dict or string.
\<close>

definition apply_result :: "HookResult \<Rightarrow> HookContext \<Rightarrow> HookContext" where
  "apply_result res ctx =
     (let ctx1 = (case hr_modified_context res of
                    None \<Rightarrow> ctx
                  | Some d \<Rightarrow> if d = [] then ctx else ctx\<lparr>ctx_data := dict_update (ctx_data ctx) d\<rparr>);
          ctx2 = (case hr_metadata res of
                    None \<Rightarrow> ctx1
                  | Some d \<Rightarrow> if d = [] then ctx1
                            else ctx1\<lparr>ctx_metadata := dict_update (ctx_metadata ctx1) d\<rparr>)
      in ctx2)"

definition block_reason :: "HookResult \<Rightarrow> string" where
  "block_reason res =
     (case hr_reason res of
        None \<Rightarrow> ''Blocked by hook''
      | Some r \<Rightarrow> if r = [] then ''Blocked by hook'' else r)"

text \<open>
  The first component of the result is what \<open>trigger\<close> hands to its caller: the
  \<open>HookResult\<close> it returns (\<open>Inr\<close>), or the text of the exception that leaves it (\<open>Inl\<close>),
  which is a \<open>BaseException\<close> that the \<open>except Exception\<close> clause let through. The second
  component is the log written up to then.
\<close>

fun run_hooks ::
  "(int \<times> Hook) list \<Rightarrow> HookContext \<Rightarrow> hook_log list \<Rightarrow> (string + HookResult) \<times> hook_log list" where
  "run_hooks [] ctx log =
     (Inr \<lparr>hr_action = ''continue'', hr_reason = None, hr_modified_context = Some (ctx_data ctx),
           hr_metadata = Some (ctx_metadata ctx)\<rparr>, log)"
| "run_hooks ((priority', hook) # rest) ctx log =
     (case should_run hook ctx of
        Raised (Exception e) \<Rightarrow> run_hooks rest ctx (log @ [Failed (hook_name hook) e])
      | Raised (BaseException e) \<Rightarrow> (Inl e, log)
      | Returned False \<Rightarrow> run_hooks rest ctx (log @ [Skipped (hook_name hook)])
      | Returned True \<Rightarrow>
          (case execute hook ctx of
             Raised (Exception e) \<Rightarrow> run_hooks rest ctx (log @ [Failed (hook_name hook) e])
           | Raised (BaseException e) \<Rightarrow> (Inl e, log)
           | Returned res \<Rightarrow>
               let ctx' = apply_result res ctx
               in if hr_action res = ''block''
                  then (Inr \<lparr>hr_action = ''block'', hr_reason = Some (block_reason res),
                             hr_modified_context = Some (ctx_data ctx'), hr_metadata = None\<rparr>,
                        log @ [Executed (hook_name hook)])
                  else run_hooks rest ctx' (log @ [Executed (hook_name hook)])))"

text \<open>
  \<open>trigger\<close>: the hooks of the event and the wildcard hooks, merged and sorted by priority
  (a stable sort, as Python's), run against one context. The outcome is paired with the
  log.
\<close>

definition all_hooks :: "HookEngine \<Rightarrow> string \<Rightarrow> (int \<times> Hook) list" where
  "all_hooks eng event =
     (let event_hooks = (case map_of (hooks eng) event of None \<Rightarrow> [] | Some l \<Rightarrow> l);
          wildcard_hooks = (case map_of (hooks eng) ''*'' of None \<Rightarrow> [] | Some l \<Rightarrow> l)
      in sort_key fst (event_hooks @ wildcard_hooks))"

definition trigger ::
  "HookEngine \<Rightarrow> string \<Rightarrow> hook_dict \<Rightarrow> hook_dict option
     \<Rightarrow> (string + HookResult) \<times> hook_log list" where
  "trigger eng event data' metadata' =
     (if \<not> enabled eng then (Inr HookResult_continue, [])
      else if all_hooks eng event = [] then (Inr HookResult_continue, [])
      else run_hooks (all_hooks eng event)
             \<lparr>ctx_event = event, ctx_data = data',
              ctx_metadata = (case metadata' of None \<Rightarrow> [] | Some md \<Rightarrow> md)\<rparr> [])"

section \<open>Task execution (core/orchestrator.py)\<close>

text \<open>
  The reasoning provider, the tools and the user are outside the program. They are an
  environment: what the provider answers in round \<open>i\<close>, what a tool call does to the task
  store (tools reach it through the task manager), and whether an interrupt request has
  arrived when checkpoint \<open>k\<close> of round \<open>i\<close> is reached (checkpoint 0 opens the round,
  checkpoint \<open>j + 1\<close> precedes the \<open>j\<close>-th tool call). The non-streaming path of
  \<open>_reasoning_loop\<close> is modelled (\<open>use_streaming_display\<close> and \<open>use_live_display\<close> both off,
  their defaults). Workspace, display and subagent calls, and hook triggers whose result
  is discarded, do not write the task store and are left out; the run is followed as long
  as these calls return.
\<close>

datatype block = Text_block string | Tool_use_block string

record llm_response =
  content :: "block list"
  stop_reason :: string

datatype llm_reply = Provider_error string | Response llm_response

record Environment =
  llm_chat :: "nat \<Rightarrow> llm_reply"
  run_tool :: "string \<Rightarrow> task_store \<Rightarrow> task_store"
  interrupt_arrives :: "nat \<Rightarrow> nat \<Rightarrow> bool"

record Orchestrator =
  tasks :: task_store
  interrupt_controller :: "InterruptController option"
  should_stop :: bool
  hook_engine :: "HookEngine option"
  max_iterations :: nat

text \<open>\<open>str(e)\<close> for the exceptions of the task manager (\<open>str\<close> of a \<open>KeyError\<close> quotes its message).\<close>

fun str_of_error :: "task_error \<Rightarrow> string" where
  "str_of_error (MaxPendingTasks n) = ''Max pending tasks limit reached ('' @ str_of_nat (nat n) @ '')''"
| "str_of_error (TaskNotFound i) = [CHR 0x27] @ ''Task not found: '' @ i @ [CHR 0x27]"
| "str_of_error (DependencyTaskNotFound i) = [CHR 0x27] @ ''Dependency task not found: '' @ i @ [CHR 0x27]"
| "str_of_error SelfDependency = ''Task cannot depend on itself''"
| "str_of_error (WouldCreateCycle a b) = ''Adding dependency '' @ a @ '' -> '' @ b @ '' would create a cycle''"
| "str_of_error DependencyCycleDetected = ''Dependency cycle detected in task graph''"

text \<open>
  \<open>_trigger_hook\<close>: the result of the engine's \<open>trigger\<close> (\<open>Inr\<close>), or the text of the
  exception that leaves it (\<open>Inl\<close>).
\<close>

definition trigger_hook :: "Orchestrator \<Rightarrow> string \<Rightarrow> hook_dict \<Rightarrow> string + HookResult" where
  "trigger_hook orch event data' =
     (case hook_engine orch of
        None \<Rightarrow> Inr HookResult_continue
      | Some eng \<Rightarrow> if \<not> enabled eng then Inr HookResult_continue
                   else fst (trigger eng event data' None))"

text \<open>An interrupt request from outside (the signal handler asks for a SOFT interrupt).\<close>

definition arrive :: "Environment \<Rightarrow> nat \<Rightarrow> nat \<Rightarrow> timestamp \<Rightarrow> Orchestrator \<Rightarrow> Orchestrator" where
  "arrive env i k now orch =
     (if interrupt_arrives env i k
      then orch\<lparr>interrupt_controller :=
                  map_option (\<lambda>c. fst (request_interrupt c SOFT USER_REQUEST None now))
                    (interrupt_controller orch)\<rparr>
      else orch)"

definition orch_check_interrupt :: "Orchestrator \<Rightarrow> bool \<times> Orchestrator" where
  "orch_check_interrupt orch =
     (case interrupt_controller orch of
        None \<Rightarrow> (False, orch)
      | Some c \<Rightarrow>
          (case check_interrupt c of
             None \<Rightarrow> (False, orch)
           | Some st \<Rightarrow> (True, orch\<lparr>should_stop := True\<rparr>)))"

text \<open>
  \<open>_handle_interrupt\<close>: the task is written back as PENDING with the error text and the
  partial result (an exception of \<open>update_task\<close> is logged and swallowed), then the
  controller is reset.
\<close>

definition handle_interrupt :: "Orchestrator \<Rightarrow> string \<Rightarrow> string option \<Rightarrow> timestamp \<Rightarrow> Orchestrator" where
  "handle_interrupt orch task_id partial_result now =
     (let m' = snd (update_task (tasks orch) task_id
                      [Set_status PENDING, Set_error (Some ''Interrupted by user''),
                       Set_result partial_result] now)
      in orch\<lparr>tasks := m', interrupt_controller := map_option reset (interrupt_controller orch),
              should_stop := False\<rparr>)"

definition reasoning_text :: "llm_response \<Rightarrow> string" where
  "reasoning_text r =
     concat (map (\<lambda>b. case b of Text_block t \<Rightarrow> t @ [CHR 0x0A] | Tool_use_block _ \<Rightarrow> []) (content r))"

fun join_lines :: "string list \<Rightarrow> string" where
  "join_lines [] = []"
| "join_lines [x] = x"
| "join_lines (x # y # ys) = x @ [CHR 0x0A] @ join_lines (y # ys)"

definition end_turn_result :: "llm_response \<Rightarrow> string" where
  "end_turn_result r =
     (let text_content = List.map_filter (\<lambda>b. case b of Text_block t \<Rightarrow> Some t | Tool_use_block _ \<Rightarrow> None)
                           (content r)
      in if text_content = [] then ''Task completed'' else join_lines text_content)"

text \<open>
  The loop over the \<open>tool_use\<close> blocks of one response. The first component of the
  result is the value the reasoning loop returns at once, if checkpoint 3 fired.
\<close>

fun run_tools ::
  "Environment \<Rightarrow> string \<Rightarrow> timestamp \<Rightarrow> nat \<Rightarrow> nat \<Rightarrow> string \<Rightarrow> block list \<Rightarrow> Orchestrator
     \<Rightarrow> string option \<times> Orchestrator" where
  "run_tools env task_id now i j rtext [] orch = (None, orch)"
| "run_tools env task_id now i j rtext (Text_block t # rest) orch =
     run_tools env task_id now i j rtext rest orch"
| "run_tools env task_id now i j rtext (Tool_use_block name # rest) orch =
     (case orch_check_interrupt (arrive env i (Suc j) now orch) of
        (True, orch1) \<Rightarrow>
          (Some ''[Execution interrupted before tool execution]'',
           handle_interrupt orch1 task_id (if rtext = [] then None else Some rtext) now)
      | (False, orch1) \<Rightarrow>
          run_tools env task_id now i (Suc j) rtext rest
            (orch1\<lparr>tasks := run_tool env name (tasks orch1)\<rparr>))"

text \<open>
  \<open>_reasoning_loop\<close>: \<open>for iteration in range(max_iterations)\<close>, with \<open>n\<close> rounds left and
  \<open>i\<close> the number of the round. The result is the exception text (\<open>Inl\<close>) or the value
  returned (\<open>Inr\<close>).
\<close>

fun reasoning_loop ::
  "Environment \<Rightarrow> string \<Rightarrow> timestamp \<Rightarrow> nat \<Rightarrow> nat \<Rightarrow> Orchestrator \<Rightarrow> (string + string) \<times> Orchestrator" where
  "reasoning_loop env task_id now 0 i orch =
     (Inl (''Task '' @ task_id @ '' exceeded max iterations ('' @ str_of_nat (max_iterations orch) @ '')''),
      orch)"
| "reasoning_loop env task_id now (Suc n) i orch =
     (case orch_check_interrupt (arrive env i 0 now orch) of
        (True, orch1) \<Rightarrow>
          (Inr ''[Execution interrupted by user]'', handle_interrupt orch1 task_id None now)
      | (False, orch1) \<Rightarrow>
          (case llm_chat env i of
             Provider_error e \<Rightarrow> (Inl e, orch1)
           | Response r \<Rightarrow>
               if stop_reason r = ''end_turn'' then (Inr (end_turn_result r), orch1)
               else if stop_reason r = ''tool_use''
               then (case run_tools env task_id now i 0 (reasoning_text r) (content r) orch1 of
                       (Some sentinel, orch2) \<Rightarrow> (Inr sentinel, orch2)
                     | (None, orch2) \<Rightarrow> reasoning_loop env task_id now n (Suc i) orch2)
               else reasoning_loop env task_id now n (Suc i) orch1))"

text \<open>
  The \<open>except Exception\<close> branch of \<open>_execute_task\<close>: the task is marked FAILED with the
  error text and the exception is raised again (one raised by this \<open>update_task\<close> replaces
  it).
\<close>

definition fail_task :: "Orchestrator \<Rightarrow> string \<Rightarrow> string \<Rightarrow> timestamp \<Rightarrow> string option \<times> Orchestrator" where
  "fail_task orch task_id e now =
     (case update_task (tasks orch) task_id [Set_status FAILED, Set_error (Some e)] now of
        (Inl e', _) \<Rightarrow> (Some (str_of_error e'), orch)
      | (Inr _, m') \<Rightarrow> (Some e, orch\<lparr>tasks := m'\<rparr>))"

text \<open>
  \<open>_execute_task\<close>. The first component of the result is the text of the exception that
  leaves the function, if one does. An exception that leaves the \<open>task.started\<close> trigger
  is not an \<open>Exception\<close>, so the \<open>except Exception\<close> branch does not run for it and the
  task stays IN_PROGRESS.
\<close>

definition execute_task :: "Environment \<Rightarrow> Orchestrator \<Rightarrow> string \<Rightarrow> timestamp \<Rightarrow> string option \<times> Orchestrator" where
  "execute_task env orch task_id now =
     (case update_task (tasks orch) task_id [Set_status IN_PROGRESS] now of
        (Inl e, _) \<Rightarrow> fail_task orch task_id (str_of_error e) now
      | (Inr _, m1) \<Rightarrow>
          let orch1 = orch\<lparr>tasks := m1\<rparr>
          in (case trigger_hook orch1 ''task.started'' [(''task'', task_id)] of
                Inl e \<Rightarrow> (Some e, orch1)
              | Inr hook_result \<Rightarrow>
                  if hr_action hook_result = ''block''
                  then fail_task orch1 task_id
                         (''Task blocked by hook: ''
                            @ (case hr_reason hook_result of None \<Rightarrow> ''None'' | Some r \<Rightarrow> r)) now
                  else
                    (case reasoning_loop env task_id now (max_iterations orch1) 0 orch1 of
                       (Inl e, orch2) \<Rightarrow> fail_task orch2 task_id e now
                     | (Inr res, orch2) \<Rightarrow>
                         (case update_task (tasks orch2) task_id
                                 [Set_status COMPLETED, Set_result (Some res)] now of
                            (Inl e, _) \<Rightarrow> fail_task orch2 task_id (str_of_error e) now
                          | (Inr _, m3) \<Rightarrow>
                              (case handle_task_completion m3 task_id now of
                                 Inl e \<Rightarrow>
                                   fail_task (orch2\<lparr>tasks := m3\<rparr>) task_id (str_of_error e) now
                               | Inr m4 \<Rightarrow> (None, orch2\<lparr>tasks := m4\<rparr>))))))"

section \<open>Specification predicates and example data\<close>

text \<open>
  The specification's definition of an executable task: a Pending task whose \<open>depends_on\<close>
  ids are all Completed, whose \<open>subtasks\<close> ids are all Completed, and whose parent, if it
  has one, is InProgress or Completed. A task has a parent when \<open>parent_id\<close> names one,
  that is, holds a non-empty id (see \<open>is_task_executable\<close>).
\<close>

definition executable_spec :: "task_store \<Rightarrow> Task \<Rightarrow> bool" where
  "executable_spec m t \<longleftrightarrow>
     status t = PENDING
     \<and> (\<forall>d \<in> set (depends_on t). \<exists>dt. get_task m d = Some dt \<and> status dt = COMPLETED)
     \<and> (\<forall>s \<in> set (subtasks t). \<exists>st. get_task m s = Some st \<and> status st = COMPLETED)
     \<and> (\<forall>p. parent_id t = Some p \<and> p \<noteq> [] \<longrightarrow>
            (\<exists>pt. get_task m p = Some pt \<and> (status pt = IN_PROGRESS \<or> status pt = COMPLETED)))"

text \<open>
  The specification's order of the priorities, Critical > High > Medium > Low, written
  out case by case: \<open>outranks p q\<close> says that \<open>p\<close> stands strictly above \<open>q\<close>.
\<close>

fun outranks :: "TaskPriority \<Rightarrow> TaskPriority \<Rightarrow> bool" where
  "outranks CRITICAL q = (q = HIGH \<or> q = MEDIUM \<or> q = LOW)"
| "outranks HIGH q = (q = MEDIUM \<or> q = LOW)"
| "outranks MEDIUM q = (q = LOW)"
| "outranks LOW q = False"

text \<open>
  The exact-inverse relation between \<open>depends_on\<close> and \<open>blocks\<close> over the pairs of
  stored tasks, and the absence of repeated ids in the edge lists. Both are checked over
  the keys of the store; \<open>inverse_edges_iff\<close> and \<open>distinct_edges_iff\<close> below give the
  quantified readings.
\<close>

definition inverse_edges :: "task_store \<Rightarrow> bool" where
  "inverse_edges m =
     list_all (\<lambda>a. list_all (\<lambda>b.
        (case (get_task m a, get_task m b) of
           (Some ta, Some tb) \<Rightarrow> (b \<in> set (depends_on ta)) = (a \<in> set (blocks tb))
         | _ \<Rightarrow> True)) (map fst m)) (map fst m)"

definition distinct_edges :: "task_store \<Rightarrow> bool" where
  "distinct_edges m =
     list_all (\<lambda>a. case get_task m a of
                      Some ta \<Rightarrow> distinct (depends_on ta) \<and> distinct (blocks ta)
                    | None \<Rightarrow> True) (map fst m)"

text \<open>An \<open>update_task\<close> call that does not assign \<open>depends_on\<close> or \<open>blocks\<close>.\<close>

definition keeps_edges :: "field_update list \<Rightarrow> bool" where
  "keeps_edges ups =
     list_all (\<lambda>u. case u of Set_depends_on _ \<Rightarrow> False | Set_blocks _ \<Rightarrow> False | _ \<Rightarrow> True) ups"

text \<open>
  What completion propagation makes of one stored task: \<open>unblocked\<close> is the entry of key
  \<open>k\<close> after the dependents in \<open>ks\<close> were looked at, \<open>auto_completed\<close> is a parent after
  its automatic completion (\<open>completed_at\<close> is written only if it was not set).
\<close>

definition unblocked :: "task_store \<Rightarrow> timestamp \<Rightarrow> string set \<Rightarrow> string \<Rightarrow> Task \<Rightarrow> Task" where
  "unblocked m now ks k t =
     (if k \<in> ks \<and> status t = BLOCKED \<and> all_completed m (depends_on t)
      then t\<lparr>status := PENDING, updated_at := now\<rparr> else t)"

definition auto_completed :: "Task \<Rightarrow> timestamp \<Rightarrow> Task" where
  "auto_completed parent now =
     (let t = parent\<lparr>status := COMPLETED, result := Some (auto_complete_result parent),
                     updated_at := now\<rparr>
      in if completed_at parent = None then t\<lparr>completed_at := Some now\<rparr> else t)"

text \<open>
  The state in which the loop of \<open>trigger\<close> leaves a run of hooks none of which blocks
  or lets an exception through (the context and the log), and the context \<open>trigger\<close>
  starts from.
\<close>

fun pass_hooks :: "(int \<times> Hook) list \<Rightarrow> HookContext \<times> hook_log list \<Rightarrow> (HookContext \<times> hook_log list) option" where
  "pass_hooks [] s = Some s"
| "pass_hooks ((priority', hook) # rest) (ctx, log) =
     (case should_run hook ctx of
        Raised (Exception e) \<Rightarrow> pass_hooks rest (ctx, log @ [Failed (hook_name hook) e])
      | Raised (BaseException e) \<Rightarrow> None
      | Returned False \<Rightarrow> pass_hooks rest (ctx, log @ [Skipped (hook_name hook)])
      | Returned True \<Rightarrow>
          (case execute hook ctx of
             Raised (Exception e) \<Rightarrow> pass_hooks rest (ctx, log @ [Failed (hook_name hook) e])
           | Raised (BaseException e) \<Rightarrow> None
           | Returned res \<Rightarrow>
               if hr_action res = ''block'' then None
               else pass_hooks rest (apply_result res ctx, log @ [Executed (hook_name hook)])))"

definition initial_context :: "string \<Rightarrow> hook_dict \<Rightarrow> hook_dict option \<Rightarrow> HookContext" where
  "initial_context event data' metadata' =
     \<lparr>ctx_event = event, ctx_data = data',
      ctx_metadata = (case metadata' of None \<Rightarrow> [] | Some md \<Rightarrow> md)\<rparr>"

text \<open>Concrete tasks and stores on which the theorems below are instantiated.\<close>

definition mk_task :: "string \<Rightarrow> TaskStatus \<Rightarrow> TaskPriority \<Rightarrow> string option \<Rightarrow> string list \<Rightarrow> string list \<Rightarrow> string list \<Rightarrow> Task" where
  "mk_task i st pr par subs deps blks =
     (Task_new i i 0)\<lparr>status := st, priority := pr, parent_id := par, subtasks := subs,
        depends_on := deps, blocks := blks\<rparr>"

definition sched_store :: task_store where
  "sched_store =
     [(''a'', mk_task ''a'' PENDING LOW None [] [] [''e'']),
      (''b'', mk_task ''b'' PENDING HIGH (Some ''p'') [] [''d''] []),
      (''c'', mk_task ''c'' PENDING HIGH None [] [] []),
      (''d'', mk_task ''d'' COMPLETED MEDIUM None [] [] [''b'']),
      (''e'', mk_task ''e'' PENDING CRITICAL None [] [''a''] []),
      (''p'', mk_task ''p'' IN_PROGRESS MEDIUM None [''b''] [] [])]"

text \<open>
  Seven executable tasks, discovered from the lowest priority to the highest, two for each
  priority but the lowest; the prefixes of this store end at each of the priorities.
\<close>

definition rank_store :: task_store where
  "rank_store =
     [(''l'', mk_task ''l'' PENDING LOW None [] [] []),
      (''m'', mk_task ''m'' PENDING MEDIUM None [] [] []),
      (''m2'', mk_task ''m2'' PENDING MEDIUM None [] [] []),
      (''h'', mk_task ''h'' PENDING HIGH None [] [] []),
      (''h2'', mk_task ''h2'' PENDING HIGH None [] [] []),
      (''k'', mk_task ''k'' PENDING CRITICAL None [] [] []),
      (''k2'', mk_task ''k2'' PENDING CRITICAL None [] [] [])]"

text \<open>A store without an executable task: \<open>x\<close> waits for \<open>y\<close>, which is being worked on.\<close>

definition idle_store :: task_store where
  "idle_store =
     [(''x'', mk_task ''x'' PENDING CRITICAL None [] [''y''] []),
      (''y'', mk_task ''y'' IN_PROGRESS LOW None [] [] [''x''])]"

definition dep_store0 :: task_store where
  "dep_store0 =
     [(''a'', mk_task ''a'' PENDING MEDIUM None [] [] []),
      (''b'', mk_task ''b'' PENDING MEDIUM None [] [] []),
      (''c'', mk_task ''c'' PENDING MEDIUM None [] [] [])]"

definition dep_store1 :: task_store where
  "dep_store1 =
     [(''a'', (mk_task ''a'' BLOCKED MEDIUM None [] [''b''] [])\<lparr>updated_at := 1\<rparr>),
      (''b'', (mk_task ''b'' PENDING MEDIUM None [] [] [''a''])\<lparr>updated_at := 1\<rparr>),
      (''c'', mk_task ''c'' PENDING MEDIUM None [] [] [])]"

definition dep_store2 :: task_store where
  "dep_store2 =
     [(''a'', (mk_task ''a'' BLOCKED MEDIUM None [] [''b''] [''c''])\<lparr>updated_at := 2\<rparr>),
      (''b'', (mk_task ''b'' PENDING MEDIUM None [] [] [''a''])\<lparr>updated_at := 1\<rparr>),
      (''c'', (mk_task ''c'' BLOCKED MEDIUM None [] [''a''] [])\<lparr>updated_at := 2\<rparr>)]"

definition dep_store3 :: task_store where
  "dep_store3 =
     [(''a'', (mk_task ''a'' BLOCKED MEDIUM None [] [] [])\<lparr>updated_at := 3\<rparr>),
      (''b'', (mk_task ''b'' PENDING MEDIUM None [] [] [])\<lparr>updated_at := 3\<rparr>),
      (''c'', mk_task ''c'' PENDING MEDIUM None [] [] [])]"

definition edge_task :: Task where
  "edge_task = mk_task ''d'' PENDING MEDIUM None [] [''a''] []"

definition tree_store :: task_store where
  "tree_store =
     [(''g'', mk_task ''g'' IN_PROGRESS MEDIUM None [''p''] [] []),
      (''p'', mk_task ''p'' IN_PROGRESS MEDIUM (Some ''g'') [''s'', ''t''] [] []),
      (''s'', mk_task ''s'' COMPLETED MEDIUM (Some ''p'') [] [] []),
      (''t'', mk_task ''t'' COMPLETED MEDIUM (Some ''p'') [] [] []),
      (''u'', mk_task ''u'' IN_PROGRESS MEDIUM None [''v''] [] []),
      (''v'', mk_task ''v'' PENDING MEDIUM (Some ''u'') [] [] [])]"


definition tree_store_done :: task_store where
  "tree_store_done =
     [(''g'', (mk_task ''g'' COMPLETED MEDIUM None [''p''] [] [])
                \<lparr>updated_at := 7, completed_at := Some 7,
                  result := Some ''All 1 subtasks completed successfully''\<rparr>),
      (''p'', (mk_task ''p'' COMPLETED MEDIUM (Some ''g'') [''s'', ''t''] [] [])
                \<lparr>updated_at := 7, completed_at := Some 7,
                  result := Some ''All 2 subtasks completed successfully''\<rparr>),
      (''s'', mk_task ''s'' COMPLETED MEDIUM (Some ''p'') [] [] []),
      (''t'', mk_task ''t'' COMPLETED MEDIUM (Some ''p'') [] [] []),
      (''u'', mk_task ''u'' IN_PROGRESS MEDIUM None [''v''] [] []),
      (''v'', mk_task ''v'' PENDING MEDIUM (Some ''u'') [] [] [])]"

definition block_store :: task_store where
  "block_store =
     [(''c'', mk_task ''c'' COMPLETED MEDIUM None [] [] [''x'', ''y'', ''z'']),
      (''x'', mk_task ''x'' BLOCKED MEDIUM None [] [''c''] []),
      (''y'', mk_task ''y'' BLOCKED MEDIUM None [] [''c'', ''w''] []),
      (''z'', mk_task ''z'' IN_PROGRESS MEDIUM None [] [''c''] []),
      (''w'', mk_task ''w'' PENDING MEDIUM None [] [] [''y''])]"

text \<open>Concrete hooks and an engine with four events.\<close>

definition block_result :: "string option \<Rightarrow> HookResult" where
  "block_result r = \<lparr>hr_action = ''block'', hr_reason = r, hr_modified_context = None, hr_metadata = None\<rparr>"

definition mk_hook :: "string \<Rightarrow> HookResult attempt \<Rightarrow> Hook" where
  "mk_hook name res = \<lparr>hook_name = name, should_run = (\<lambda>_. Returned True), execute = (\<lambda>_. res)\<rparr>"

definition hook_engine0 :: HookEngine where
  "hook_engine0 =
     register (register (register (register (register (register (register
       \<lparr>hooks = [], enabled = True\<rparr>
       ''E'' (mk_hook ''late'' (Returned HookResult_continue)) 50)
       ''E'' (mk_hook ''guard'' (Returned (block_result (Some ''nope'')))) 10)
       ''F'' (mk_hook ''late'' (Returned HookResult_continue)) 50)
       ''F'' (mk_hook ''boom'' (Raised (Exception ''err''))) 10)
       ''G'' (mk_hook ''silent'' (Returned (block_result None))) 10)
       ''H'' (mk_hook ''late'' (Returned HookResult_continue)) 50)
       ''H'' (mk_hook ''cancelled'' (Raised (BaseException ''CancelledError''))) 10"

text \<open>
  An engine holding one fresh task, a provider that ends its turn with the text "done",
  and two environments: one in which an interrupt request arrives before the first round,
  one without requests.
\<close>

definition engine_orch :: Orchestrator where
  "engine_orch =
     \<lparr>tasks = [(''t'', mk_task ''t'' PENDING MEDIUM None [] [] [])],
      interrupt_controller = Some (InterruptController_init 2), should_stop = False,
      hook_engine = None, max_iterations = 20\<rparr>"

definition answer_done :: llm_reply where
  "answer_done = Response \<lparr>content = [Text_block ''done''], stop_reason = ''end_turn''\<rparr>"

definition env_interrupted :: Environment where
  "env_interrupted =
     \<lparr>llm_chat = (\<lambda>i. answer_done), run_tool = (\<lambda>name m. m),
      interrupt_arrives = (\<lambda>i k. i = 0 \<and> k = 0)\<rparr>"

definition env_quiet :: Environment where
  "env_quiet =
     \<lparr>llm_chat = (\<lambda>i. answer_done), run_tool = (\<lambda>name m. m),
      interrupt_arrives = (\<lambda>i k. False)\<rparr>"


section \<open>Properties of the interrupt controller\<close>

text \<open>
  Claim C7. With \<open>soft_interrupt_limit = 2\<close>, starting from the reset state: after two
  SOFT requests the effective type is SOFT and the counter is 2; a third request, of any
  requested type, leaves the effective type HARD and the counter 3; \<open>reset\<close> then gives
  counter 0 and type NONE. Reasons, messages, clock readings and callbacks are arbitrary.
\<close>

theorem interrupt_escalation_limit_2:
  "(let c0 = reset (c\<lparr>soft_interrupt_limit := 2\<rparr>);
        c1 = fst (request_interrupt c0 SOFT r1 m1 t1);
        c2 = fst (request_interrupt c1 SOFT r2 m2 t2);
        c3 = fst (request_interrupt c2 ty r3 m3 t3)
    in interrupt_count c0 = 0 \<and> interrupt_type (state c0) = NONE
     \<and> interrupt_type (state c2) = SOFT \<and> interrupt_count c2 = 2
     \<and> interrupt_type (state c3) = HARD \<and> interrupt_count c3 = 3
     \<and> interrupt_count (reset c3) = 0 \<and> interrupt_type (state (reset c3)) = NONE
     \<and> check_interrupt (reset c3) = None)"
  by (simp add: request_interrupt_def reset_def check_interrupt_def Let_def
        InterruptState_default_def)

section \<open>Properties of the scheduler query\<close>

lemma all_completed_iff:
  "all_completed m ids \<longleftrightarrow> (\<forall>i \<in> set ids. \<exists>t. get_task m i = Some t \<and> status t = COMPLETED)"
  by (auto simp: all_completed_def task_completed_def list_all_iff split: option.splits)

lemma is_task_executable_iff:
  "status t = PENDING \<and> is_task_executable m t \<longleftrightarrow> executable_spec m t"
  unfolding is_task_executable_def executable_spec_def all_completed_iff
  by (auto split: option.splits)

lemma find_as_filter:
  "find P xs = (case filter P xs of [] \<Rightarrow> None | x # _ \<Rightarrow> Some x)"
  by (induction xs) auto

lemma find_filter_conj: "find P (filter Q xs) = find (\<lambda>u. Q u \<and> P u) xs"
  by (induction xs) auto

lemma hd_sort_key_first_min:
  fixes f :: "'a \<Rightarrow> nat"
  assumes "xs \<noteq> []"
  shows "hd (sort_key f xs) \<in> set xs"
    and "\<forall>u \<in> set xs. f (hd (sort_key f xs)) \<le> f u"
    and "find (\<lambda>u. f u = f (hd (sort_key f xs))) xs = Some (hd (sort_key f xs))"
proof -
  let ?ys = "sort_key f xs"
  from assms have ne: "?ys \<noteq> []" by (metis length_sort length_0_conv)
  then obtain h tl where ys: "?ys = h # tl" by (cases ?ys) auto
  have hd: "hd ?ys = h" by (simp add: ys)
  have set: "set xs = insert h (set tl)" using set_sort [of f xs] by (simp add: ys)
  show "hd ?ys \<in> set xs" unfolding hd set by simp
  have "sorted (map f ?ys)" by (rule sorted_sort_key)
  then have "\<forall>u \<in> set tl. f h \<le> f u" unfolding ys by auto
  then show "\<forall>u \<in> set xs. f (hd ?ys) \<le> f u" unfolding hd set by simp
  have "filter (\<lambda>y. f y = f h) xs = filter (\<lambda>y. f y = f h) ?ys"
    by (rule sort_key_stable [symmetric])
  also have "\<dots> = h # filter (\<lambda>y. f y = f h) tl" by (simp add: ys)
  finally show "find (\<lambda>u. f u = f (hd ?ys)) xs = Some (hd ?ys)"
    unfolding hd by (simp add: find_as_filter)
qed

lemma outranks_iff: "outranks p q \<longleftrightarrow> priority_order p < priority_order q"
  by (cases p; cases q) simp_all

lemma priority_order_eq_iff: "priority_order p = priority_order q \<longleftrightarrow> p = q"
  by (cases p; cases q) simp_all

text \<open>
  Claim C1. \<open>get_next_executable_task\<close> returns none exactly when no stored task is
  executable in the specification's sense. Otherwise it returns a stored task that is
  executable (Pending, every \<open>depends_on\<close> id Completed, every \<open>subtasks\<close> id
  Completed, parent InProgress or Completed if it has one), that no executable task
  outranks in the order Critical > High > Medium > Low, and that is the first task in the
  store's order (the order of discovery) among the executable tasks of its own priority.
\<close>

theorem get_next_executable_task_correct:
  "(case get_next_executable_task m of
      None \<Rightarrow> \<forall>u \<in> set (map snd m). \<not> executable_spec m u
    | Some t \<Rightarrow>
        t \<in> set (map snd m) \<and> executable_spec m t
        \<and> (\<forall>u \<in> set (map snd m). executable_spec m u \<longrightarrow> \<not> outranks (priority u) (priority t))
        \<and> find (\<lambda>u. executable_spec m u \<and> priority u = priority t) (map snd m) = Some t)"
proof -
  let ?Q = "\<lambda>u. status u = PENDING \<and> is_task_executable m u"
  let ?f = "\<lambda>t. priority_order (priority t)"
  let ?ex = "filter ?Q (map snd m)"
  have ex: "filter (is_task_executable m) (list_tasks m (Some PENDING) None) = ?ex"
    by (simp add: list_tasks_def)
  have Q: "?Q = executable_spec m" by (rule ext) (rule is_task_executable_iff)
  show ?thesis
  proof (cases "?ex = []")
    case True
    then have none: "get_next_executable_task m = None"
      unfolding get_next_executable_task_def Let_def ex by simp
    from True have "\<forall>u \<in> set (map snd m). \<not> ?Q u"
      by (simp add: filter_empty_conv)
    then have "\<forall>u \<in> set (map snd m). \<not> executable_spec m u"
      using is_task_executable_iff by blast
    with none show ?thesis by simp
  next
    case False
    then have pend: "list_tasks m (Some PENDING) None \<noteq> []"
      by (auto simp: list_tasks_def filter_empty_conv)
    let ?h = "hd (sort_key ?f ?ex)"
    from False pend have some: "get_next_executable_task m = Some ?h"
      unfolding get_next_executable_task_def Let_def ex by simp
    from hd_sort_key_first_min [OF False, of ?f]
    have 1: "?h \<in> set ?ex" and 2: "\<forall>u \<in> set ?ex. ?f ?h \<le> ?f u"
      and 3: "find (\<lambda>u. ?f u = ?f ?h) ?ex = Some ?h" by blast+
    from 1 have a: "?h \<in> set (map snd m)" "executable_spec m ?h" using Q by auto
    from 2 have "\<forall>u \<in> set (map snd m). executable_spec m u \<longrightarrow> ?f ?h \<le> ?f u"
      using Q by auto
    then have b: "\<forall>u \<in> set (map snd m). executable_spec m u \<longrightarrow> \<not> outranks (priority u) (priority ?h)"
      unfolding outranks_iff by (simp add: not_less)
    from 3 have c: "find (\<lambda>u. executable_spec m u \<and> priority u = priority ?h) (map snd m) = Some ?h"
      unfolding find_filter_conj Q priority_order_eq_iff .
    from some a b c show ?thesis by simp
  qed
qed

lemma sched_store_next:
  "get_next_executable_task sched_store = Some (mk_task ''b'' PENDING HIGH (Some ''p'') [] [''d''] [])"
  by (simp add: get_next_executable_task_def list_tasks_def sched_store_def mk_task_def
        Task_new_def is_task_executable_def all_completed_def task_completed_def get_task_def)

lemma rank_store_next:
  "get_next_executable_task rank_store = Some (mk_task ''k'' PENDING CRITICAL None [] [] [])"
  "get_next_executable_task (take 5 rank_store) = Some (mk_task ''h'' PENDING HIGH None [] [] [])"
  "get_next_executable_task (take 3 rank_store) = Some (mk_task ''m'' PENDING MEDIUM None [] [] [])"
  "get_next_executable_task (take 1 rank_store) = Some (mk_task ''l'' PENDING LOW None [] [] [])"
  "get_next_executable_task idle_store = None"
  by (simp_all add: get_next_executable_task_def list_tasks_def rank_store_def idle_store_def
        mk_task_def Task_new_def is_task_executable_def all_completed_def task_completed_def
        get_task_def)

text \<open>
  The theorem at concrete stores. In \<open>sched_store\<close> the CRITICAL task \<open>e\<close> waits for a
  dependency and the LOW task \<open>a\<close> is discovered first, and the first of the two HIGH
  tasks is returned. In \<open>rank_store\<close> and its prefixes every task is executable and the
  tasks of lower priority are discovered first: the first task of the highest priority
  present is returned. In \<open>idle_store\<close> nothing is executable.
\<close>

theorem get_next_executable_task_correct_witness:
  "get_next_executable_task sched_store = Some (mk_task ''b'' PENDING HIGH (Some ''p'') [] [''d''] [])
   \<and> executable_spec sched_store (mk_task ''b'' PENDING HIGH (Some ''p'') [] [''d''] [])
   \<and> \<not> executable_spec sched_store (mk_task ''e'' PENDING CRITICAL None [] [''a''] [])
   \<and> find (\<lambda>u. executable_spec sched_store u \<and> priority u = HIGH) (map snd sched_store)
       = Some (mk_task ''b'' PENDING HIGH (Some ''p'') [] [''d''] [])
   \<and> get_next_executable_task rank_store = Some (mk_task ''k'' PENDING CRITICAL None [] [] [])
   \<and> executable_spec rank_store (mk_task ''l'' PENDING LOW None [] [] [])
   \<and> find (\<lambda>u. executable_spec rank_store u \<and> priority u = CRITICAL) (map snd rank_store)
       = Some (mk_task ''k'' PENDING CRITICAL None [] [] [])
   \<and> get_next_executable_task (take 5 rank_store) = Some (mk_task ''h'' PENDING HIGH None [] [] [])
   \<and> find (\<lambda>u. executable_spec (take 5 rank_store) u \<and> priority u = HIGH) (map snd (take 5 rank_store))
       = Some (mk_task ''h'' PENDING HIGH None [] [] [])
   \<and> get_next_executable_task (take 3 rank_store) = Some (mk_task ''m'' PENDING MEDIUM None [] [] [])
   \<and> find (\<lambda>u. executable_spec (take 3 rank_store) u \<and> priority u = MEDIUM) (map snd (take 3 rank_store))
       = Some (mk_task ''m'' PENDING MEDIUM None [] [] [])
   \<and> get_next_executable_task (take 1 rank_store) = Some (mk_task ''l'' PENDING LOW None [] [] [])
   \<and> get_next_executable_task idle_store = None
   \<and> \<not> executable_spec idle_store (mk_task ''x'' PENDING CRITICAL None [] [''y''] [])"
proof -
  have e: "\<not> executable_spec sched_store (mk_task ''e'' PENDING CRITICAL None [] [''a''] [])"
    by (simp add: executable_spec_def sched_store_def mk_task_def Task_new_def get_task_def)
  have l: "executable_spec rank_store (mk_task ''l'' PENDING LOW None [] [] [])"
    by (simp add: executable_spec_def mk_task_def Task_new_def)
  have p: "priority (mk_task i st pr par subs deps blks) = pr" for i st pr par subs deps blks
    by (simp add: mk_task_def)
  have 1: "executable_spec sched_store (mk_task ''b'' PENDING HIGH (Some ''p'') [] [''d''] [])
      \<and> find (\<lambda>u. executable_spec sched_store u \<and> priority u = HIGH) (map snd sched_store)
          = Some (mk_task ''b'' PENDING HIGH (Some ''p'') [] [''d''] [])"
    using get_next_executable_task_correct [of sched_store]
    unfolding sched_store_next by (simp add: p)
  have 2: "find (\<lambda>u. executable_spec rank_store u \<and> priority u = CRITICAL) (map snd rank_store)
          = Some (mk_task ''k'' PENDING CRITICAL None [] [] [])"
    using get_next_executable_task_correct [of rank_store]
    unfolding rank_store_next by (simp add: p)
  have 3: "find (\<lambda>u. executable_spec (take 5 rank_store) u \<and> priority u = HIGH)
             (map snd (take 5 rank_store)) = Some (mk_task ''h'' PENDING HIGH None [] [] [])"
    using get_next_executable_task_correct [of "take 5 rank_store"]
    unfolding rank_store_next by (simp add: p)
  have 4: "find (\<lambda>u. executable_spec (take 3 rank_store) u \<and> priority u = MEDIUM)
             (map snd (take 3 rank_store)) = Some (mk_task ''m'' PENDING MEDIUM None [] [] [])"
    using get_next_executable_task_correct [of "take 3 rank_store"]
    unfolding rank_store_next by (simp add: p)
  have "\<forall>u \<in> set (map snd idle_store). \<not> executable_spec idle_store u"
    using get_next_executable_task_correct [of idle_store]
    unfolding rank_store_next by simp
  moreover have "mk_task ''x'' PENDING CRITICAL None [] [''y''] [] \<in> set (map snd idle_store)"
    by (simp add: idle_store_def)
  ultimately have 5: "\<not> executable_spec idle_store (mk_task ''x'' PENDING CRITICAL None [] [''y''] [])"
    by blast
  from e l 1 2 3 4 5 sched_store_next rank_store_next show ?thesis
    by blast
qed
section \<open>Properties of the dependency graph operations\<close>

lemma get_task_update:
  "get_task (AList.update k v m) k' = (if k' = k then Some v else get_task m k')"
  by (simp add: get_task_def update_conv')

lemma update_task_Some:
  assumes "get_task m k = Some t"
  shows "\<exists>t'. update_task m k ups now = (Inr t', AList.update k t' m)
             \<and> t' = (let t2 = (fold setattr ups t)\<lparr>updated_at := now\<rparr>
                      in if status t2 = COMPLETED \<and> completed_at t2 = None
                         then t2\<lparr>completed_at := Some now\<rparr> else t2)"
  using assms by (simp add: update_task_def Let_def)

lemma get_task_map_entry:
  "get_task (AList.map_entry k f m) k' =
     (if k' = k then map_option f (get_task m k) else get_task m k')"
  by (auto simp: get_task_def map_of_map_entry split: option.splits)

lemma has_cycle_dfs_loop_target:
  "target \<in> set ds \<Longrightarrow> fst (has_cycle_dfs_loop m ds target visited)"
proof (induction ds arbitrary: visited)
  case Nil
  then show ?case by simp
next
  case (Cons d ds)
  show ?case
  proof (cases "d = target")
    case True
    then show ?thesis by (simp add: has_cycle_dfs.simps)
  next
    case False
    with Cons.prems have "target \<in> set ds" by simp
    then show ?thesis
      using Cons.IH by (simp split: prod.splits)
  qed
qed

lemma has_cycle_dfs_edge:
  assumes "get_task m start = Some task" and "target \<in> set (depends_on task)"
  shows "fst (has_cycle_dfs m start target {})"
  using assms by (simp add: has_cycle_dfs.simps has_cycle_dfs_loop_target)

text \<open>The search never reads the entry of its target.\<close>

lemma has_cycle_dfs_cong_off_target:
  assumes "\<And>k. k \<noteq> target \<Longrightarrow> map_option depends_on (get_task m' k) = map_option depends_on (get_task m k)"
  shows "has_cycle_dfs m' start target visited = has_cycle_dfs m start target visited"
    and "has_cycle_dfs_loop m' ds target visited = has_cycle_dfs_loop m ds target visited"
  using assms
proof (induction m start target visited and m ds target visited
        rule: has_cycle_dfs_has_cycle_dfs_loop.induct)
  case (1 m start target visited)
  show ?case
  proof (cases "start = target \<or> start \<in> visited")
    case True
    then show ?thesis by (auto simp: has_cycle_dfs.simps)
  next
    case False
    then have ne: "start \<noteq> target" "start \<notin> visited" by auto
    from "1.prems" [OF ne(1)]
    have eq: "map_option depends_on (get_task m' start) = map_option depends_on (get_task m start)" .
    show ?thesis
    proof (cases "get_task m start")
      case None
      with eq have "get_task m' start = None" by simp
      with None ne show ?thesis by (simp add: has_cycle_dfs.simps)
    next
      case (Some task)
      with eq obtain task' where t': "get_task m' start = Some task'"
        and d: "depends_on task' = depends_on task" by (cases "get_task m' start") auto
      from "1.IH" [OF ne Some "1.prems"]
      have "has_cycle_dfs_loop m' (depends_on task) target (insert start visited)
            = has_cycle_dfs_loop m (depends_on task) target (insert start visited)" by simp
      with Some t' d ne show ?thesis by (simp add: has_cycle_dfs.simps)
    qed
  qed
next
  case (2 m target visited)
  show ?case by simp
next
  case (3 m dep_id rest target visited)
  from "3.IH"(1) [OF "3.prems"]
  have a: "has_cycle_dfs m' dep_id target visited = has_cycle_dfs m dep_id target visited" by simp
  show ?case
  proof (cases "has_cycle_dfs m dep_id target visited")
    case (Pair found visited')
    show ?thesis
    proof (cases found)
      case True
      with Pair a show ?thesis by simp
    next
      case False
      from "3.IH"(2) [OF Pair [symmetric] refl False "3.prems"]
      have "has_cycle_dfs_loop m' rest target visited' = has_cycle_dfs_loop m rest target visited'"
        by simp
      with Pair a False show ?thesis by simp
    qed
  qed
qed

lemma get_task_if_map_entry:
  "get_task (if c then AList.map_entry k f m else m) k' =
     (if k' = k then map_option (if c then f else id) (get_task m k) else get_task m k')"
  by (simp add: get_task_map_entry option.map_id)

lemma add_dependency_NoneE:
  assumes "add_dependency cfg m a b now = (None, m')"
  obtains ta tb m1 m2 where "get_task m a = Some ta" "get_task m b = Some tb" "a \<noteq> b"
    "\<not> has_dependency_cycle m a b"
    "m1 = (if b \<notin> set (depends_on ta)
           then AList.map_entry a (\<lambda>t. t\<lparr>depends_on := depends_on t @ [b], updated_at := now\<rparr>) m
           else m)"
    "m2 = (if a \<notin> set (blocks tb)
           then AList.map_entry b (\<lambda>t. t\<lparr>blocks := blocks t @ [a], updated_at := now\<rparr>) m1
           else m1)"
    "m' = (if auto_block_on_dependency cfg \<and> status tb \<noteq> COMPLETED \<and> status ta = PENDING
           then AList.map_entry a (\<lambda>t. t\<lparr>status := BLOCKED\<rparr>) m2 else m2)"
proof (cases "get_task m a")
  case None
  with assms show ?thesis by (simp add: add_dependency_def)
next
  case ta: (Some ta)
  show ?thesis
  proof (cases "get_task m b")
    case None
    with assms ta show ?thesis by (simp add: add_dependency_def)
  next
    case tb: (Some tb)
    from assms ta tb have ne: "a \<noteq> b" and nc: "\<not> has_dependency_cycle m a b"
      by (auto simp: add_dependency_def split: if_splits)
    show ?thesis
    proof (rule that [OF ta tb ne nc refl refl])
      from assms ta tb ne nc
      show "m' = (if auto_block_on_dependency cfg \<and> status tb \<noteq> COMPLETED \<and> status ta = PENDING
           then AList.map_entry a (\<lambda>t. t\<lparr>status := BLOCKED\<rparr>)
             (if a \<notin> set (blocks tb)
              then AList.map_entry b (\<lambda>t. t\<lparr>blocks := blocks t @ [a], updated_at := now\<rparr>)
                (if b \<notin> set (depends_on ta)
                 then AList.map_entry a (\<lambda>t. t\<lparr>depends_on := depends_on t @ [b], updated_at := now\<rparr>) m
                 else m)
              else (if b \<notin> set (depends_on ta)
                 then AList.map_entry a (\<lambda>t. t\<lparr>depends_on := depends_on t @ [b], updated_at := now\<rparr>) m
                 else m))
           else (if a \<notin> set (blocks tb)
              then AList.map_entry b (\<lambda>t. t\<lparr>blocks := blocks t @ [a], updated_at := now\<rparr>)
                (if b \<notin> set (depends_on ta)
                 then AList.map_entry a (\<lambda>t. t\<lparr>depends_on := depends_on t @ [b], updated_at := now\<rparr>) m
                 else m)
              else (if b \<notin> set (depends_on ta)
                 then AList.map_entry a (\<lambda>t. t\<lparr>depends_on := depends_on t @ [b], updated_at := now\<rparr>) m
                 else m)))"
        by (auto simp: add_dependency_def Let_def)
    qed
  qed
qed

lemma add_dependency_effect:
  assumes "add_dependency cfg m a b now = (None, m')"
  obtains ta tb ta' tb' where
    "get_task m a = Some ta" "get_task m b = Some tb" "a \<noteq> b"
    "\<not> has_dependency_cycle m a b"
    "get_task m' a = Some ta'" "get_task m' b = Some tb'"
    "depends_on ta' = (if b \<in> set (depends_on ta) then depends_on ta else depends_on ta @ [b])"
    "blocks ta' = blocks ta"
    "status ta' = (if auto_block_on_dependency cfg \<and> status tb \<noteq> COMPLETED \<and> status ta = PENDING
                   then BLOCKED else status ta)"
    "blocks tb' = (if a \<in> set (blocks tb) then blocks tb else blocks tb @ [a])"
    "depends_on tb' = depends_on tb" "status tb' = status tb"
    "\<And>k. k \<noteq> a \<Longrightarrow> k \<noteq> b \<Longrightarrow> get_task m' k = get_task m k"
proof -
  let ?f1 = "\<lambda>t. t\<lparr>depends_on := depends_on t @ [b], updated_at := now\<rparr>"
  let ?f2 = "\<lambda>t. t\<lparr>blocks := blocks t @ [a], updated_at := now\<rparr>"
  let ?f3 = "\<lambda>t. t\<lparr>status := BLOCKED\<rparr>"
  from assms obtain ta tb m1 m2 where t: "get_task m a = Some ta" "get_task m b = Some tb" "a \<noteq> b"
    "\<not> has_dependency_cycle m a b"
    and m1: "m1 = (if b \<notin> set (depends_on ta) then AList.map_entry a ?f1 m else m)"
    and m2: "m2 = (if a \<notin> set (blocks tb) then AList.map_entry b ?f2 m1 else m1)"
    and m': "m' = (if auto_block_on_dependency cfg \<and> status tb \<noteq> COMPLETED \<and> status ta = PENDING
           then AList.map_entry a ?f3 m2 else m2)"
    by (rule add_dependency_NoneE)
  let ?c1 = "b \<notin> set (depends_on ta)" and ?c2 = "a \<notin> set (blocks tb)"
  let ?c3 = "auto_block_on_dependency cfg \<and> status tb \<noteq> COMPLETED \<and> status ta = PENDING"
  from t have ba: "b \<noteq> a" by simp
  have g1: "get_task m1 k = (if k = a then map_option (if ?c1 then ?f1 else id) (get_task m a) else get_task m k)" for k
    unfolding m1 by (rule get_task_if_map_entry)
  have g2: "get_task m2 k = (if k = b then map_option (if ?c2 then ?f2 else id) (get_task m1 b) else get_task m1 k)" for k
    unfolding m2 by (rule get_task_if_map_entry)
  have g3: "get_task m' k = (if k = a then map_option (if ?c3 then ?f3 else id) (get_task m2 a) else get_task m2 k)" for k
    unfolding m' by (rule get_task_if_map_entry)
  have a': "get_task m' a = Some ((if ?c3 then ?f3 else id) ((if ?c1 then ?f1 else id) ta))"
    using t by (simp add: g3 g2 g1)
  have b': "get_task m' b = Some ((if ?c2 then ?f2 else id) tb)"
    using t ba by (simp add: g3 g2 g1)
  show ?thesis
  proof (rule that [OF t a' b'])
    show "\<And>k. k \<noteq> a \<Longrightarrow> k \<noteq> b \<Longrightarrow> get_task m' k = get_task m k"
      by (simp add: g3 g2 g1)
  qed simp_all
qed


lemmas store_eval = mk_task_def Task_new_def get_task_def add_dependency_def remove_dependency_def
  has_dependency_cycle_def has_cycle_dfs.simps Let_def TaskConfig_default_def

lemma dep_store0_add: "add_dependency TaskConfig_default dep_store0 ''a'' ''b'' 1 = (None, dep_store1)"
  by (simp add: dep_store0_def dep_store1_def store_eval)


text \<open>
  Claim C2. If \<open>add_dependency(A, B)\<close> succeeds (which needs A and B to be two different
  stored tasks), then \<open>add_dependency(B, A)\<close> on the resulting store raises the cycle
  error, at any later clock reading, and the store after the failed call is the store
  before it: no field of any task, in particular no \<open>depends_on\<close> or \<open>blocks\<close> list of
  A or B, has changed.
\<close>

theorem add_dependency_reverse_is_cycle:
  assumes "add_dependency cfg m a b now = (None, m')"
  shows "a \<noteq> b \<and> get_task m a \<noteq> None \<and> get_task m b \<noteq> None
       \<and> add_dependency cfg m' b a now' = (Some (WouldCreateCycle b a), m')"
  using assms
proof (rule add_dependency_effect)
  fix ta tb ta' tb'
  assume t: "get_task m a = Some ta" "get_task m b = Some tb" "a \<noteq> b"
    and t': "get_task m' a = Some ta'" "get_task m' b = Some tb'"
    and d: "depends_on ta' = (if b \<in> set (depends_on ta) then depends_on ta else depends_on ta @ [b])"
  from d have "b \<in> set (depends_on ta')" by (simp split: if_splits)
  with t' have "has_dependency_cycle m' b a"
    unfolding has_dependency_cycle_def by (intro has_cycle_dfs_edge)
  with t t' show ?thesis by (auto simp: add_dependency_def)
qed


theorem add_dependency_reverse_is_cycle_witness:
  "add_dependency TaskConfig_default dep_store0 ''a'' ''b'' 1 = (None, dep_store1)
   \<and> add_dependency TaskConfig_default dep_store1 ''b'' ''a'' 2
       = (Some (WouldCreateCycle ''b'' ''a''), dep_store1)"
  using add_dependency_reverse_is_cycle [OF dep_store0_add, of 2] dep_store0_add by simp


lemma count_list_max_append:
  "count_list (if x \<in> set xs then xs else xs @ [x]) x = max 1 (count_list xs x)"
proof (cases "x \<in> set xs")
  case True
  then have "count_list xs x \<noteq> 0" by (simp add: count_list_0_iff)
  with True show ?thesis by (simp add: max_def)
next
  case False
  then show ?thesis by (simp add: count_list_0_iff)
qed

text \<open>
  Claim C10. If \<open>add_dependency(A, B)\<close> succeeds, then calling it again on the resulting
  store succeeds and returns that store unchanged: \<open>A.depends_on\<close>, \<open>B.blocks\<close> and the
  statuses are as they were, and no second entry for the edge is appended.
\<close>

theorem add_dependency_idempotent:
  assumes "add_dependency cfg m a b now = (None, m')"
  shows "add_dependency cfg m' a b now' = (None, m')
       \<and> (\<exists>ta tb ta' tb'.
            get_task m a = Some ta \<and> get_task m b = Some tb
          \<and> get_task m' a = Some ta' \<and> get_task m' b = Some tb'
          \<and> count_list (depends_on ta') b = max 1 (count_list (depends_on ta) b)
          \<and> count_list (blocks tb') a = max 1 (count_list (blocks tb) a))"
  using assms
proof (rule add_dependency_effect)
  fix ta tb ta' tb'
  assume t: "get_task m a = Some ta" "get_task m b = Some tb" "a \<noteq> b"
       "\<not> has_dependency_cycle m a b"
    and t': "get_task m' a = Some ta'" "get_task m' b = Some tb'"
    and d: "depends_on ta' = (if b \<in> set (depends_on ta) then depends_on ta else depends_on ta @ [b])"
       "status ta' = (if auto_block_on_dependency cfg \<and> status tb \<noteq> COMPLETED \<and> status ta = PENDING
                   then BLOCKED else status ta)"
       "blocks tb' = (if a \<in> set (blocks tb) then blocks tb else blocks tb @ [a])"
       "depends_on tb' = depends_on tb" "status tb' = status tb"
    and other: "\<And>k. k \<noteq> a \<Longrightarrow> k \<noteq> b \<Longrightarrow> get_task m' k = get_task m k"
  have "map_option depends_on (get_task m' k) = map_option depends_on (get_task m k)"
    if "k \<noteq> a" for k
  proof (cases "k = b")
    case True
    with t t' d show ?thesis by simp
  next
    case False
    with that other show ?thesis by simp
  qed
  then have "has_cycle_dfs m' b a {} = has_cycle_dfs m b a {}"
    by (rule has_cycle_dfs_cong_off_target(1))
  with t have nc: "\<not> has_dependency_cycle m' a b"
    by (simp add: has_dependency_cycle_def)
  from d have in1: "b \<in> set (depends_on ta')" and in2: "a \<in> set (blocks tb')"
    by (simp_all split: if_splits)
  from d have st: "\<not> (auto_block_on_dependency cfg \<and> status tb' \<noteq> COMPLETED \<and> status ta' = PENDING)"
    by (auto split: if_splits)
  from t t' nc in1 in2 st have again: "add_dependency cfg m' a b now' = (None, m')"
    by (auto simp: add_dependency_def Let_def)
  from d(1) have c1: "count_list (depends_on ta') b = max 1 (count_list (depends_on ta) b)"
    by (simp only: count_list_max_append)
  from d(3) have c2: "count_list (blocks tb') a = max 1 (count_list (blocks tb) a)"
    by (simp only: count_list_max_append)
  from again t(1,2) t' c1 c2 show ?thesis by blast
qed

theorem add_dependency_idempotent_witness:
  "add_dependency TaskConfig_default dep_store0 ''a'' ''b'' 1 = (None, dep_store1)
   \<and> add_dependency TaskConfig_default dep_store1 ''a'' ''b'' 2 = (None, dep_store1)"
  using add_dependency_idempotent [OF dep_store0_add, of 2] dep_store0_add by simp


subsection \<open>The inverse relation between \<open>depends_on\<close> and \<open>blocks\<close>\<close>

lemma inverse_edges_iff:
  "inverse_edges m \<longleftrightarrow>
     (\<forall>a b ta tb. get_task m a = Some ta \<longrightarrow> get_task m b = Some tb \<longrightarrow>
        (b \<in> set (depends_on ta) \<longleftrightarrow> a \<in> set (blocks tb)))"
proof
  assume l: "inverse_edges m"
  show "\<forall>a b ta tb. get_task m a = Some ta \<longrightarrow> get_task m b = Some tb \<longrightarrow>
        (b \<in> set (depends_on ta) \<longleftrightarrow> a \<in> set (blocks tb))"
  proof (intro allI impI)
    fix a b ta tb
    assume t: "get_task m a = Some ta" "get_task m b = Some tb"
    then have "a \<in> fst ` set m" "b \<in> fst ` set m" by (auto dest: get_task_Some_key)
    with l t show "b \<in> set (depends_on ta) \<longleftrightarrow> a \<in> set (blocks tb)"
      unfolding inverse_edges_def list_all_iff by fastforce
  qed
next
  assume "\<forall>a b ta tb. get_task m a = Some ta \<longrightarrow> get_task m b = Some tb \<longrightarrow>
        (b \<in> set (depends_on ta) \<longleftrightarrow> a \<in> set (blocks tb))"
  then show "inverse_edges m"
    unfolding inverse_edges_def list_all_iff by (auto split: option.splits)
qed

lemma distinct_edges_iff:
  "distinct_edges m \<longleftrightarrow>
     (\<forall>a ta. get_task m a = Some ta \<longrightarrow> distinct (depends_on ta) \<and> distinct (blocks ta))"
proof
  assume l: "distinct_edges m"
  show "\<forall>a ta. get_task m a = Some ta \<longrightarrow> distinct (depends_on ta) \<and> distinct (blocks ta)"
  proof (intro allI impI)
    fix a ta
    assume t: "get_task m a = Some ta"
    then have "a \<in> fst ` set m" by (auto dest: get_task_Some_key)
    with l t show "distinct (depends_on ta) \<and> distinct (blocks ta)"
      unfolding distinct_edges_def list_all_iff by fastforce
  qed
next
  assume "\<forall>a ta. get_task m a = Some ta \<longrightarrow> distinct (depends_on ta) \<and> distinct (blocks ta)"
  then show "distinct_edges m"
    unfolding distinct_edges_def list_all_iff by (auto split: option.splits)
qed

text \<open>What a successful \<open>add_dependency\<close> does to the edge lists of every entry.\<close>

lemma add_dependency_lists:
  assumes "add_dependency cfg m a b now = (None, m')"
  shows "a \<noteq> b"
    and "get_task m' k = Some t' \<Longrightarrow>
           \<exists>t. get_task m k = Some t
             \<and> depends_on t' = (if k = a \<and> b \<notin> set (depends_on t) then depends_on t @ [b] else depends_on t)
             \<and> blocks t' = (if k = b \<and> a \<notin> set (blocks t) then blocks t @ [a] else blocks t)"
  using assms
proof (rule_tac [!] add_dependency_effect)
  fix ta tb ta' tb'
  assume "a \<noteq> b"
  then show "a \<noteq> b" .
next
  fix ta tb ta' tb'
  assume k: "get_task m' k = Some t'"
    and t: "get_task m a = Some ta" "get_task m b = Some tb" "a \<noteq> b"
    and t': "get_task m' a = Some ta'" "get_task m' b = Some tb'"
    and d: "depends_on ta' = (if b \<in> set (depends_on ta) then depends_on ta else depends_on ta @ [b])"
       "blocks ta' = blocks ta"
       "blocks tb' = (if a \<in> set (blocks tb) then blocks tb else blocks tb @ [a])"
       "depends_on tb' = depends_on tb"
    and other: "\<And>k. k \<noteq> a \<Longrightarrow> k \<noteq> b \<Longrightarrow> get_task m' k = get_task m k"
  consider "k = a" | "k = b" | "k \<noteq> a" "k \<noteq> b" by blast
  then show "\<exists>t. get_task m k = Some t
             \<and> depends_on t' = (if k = a \<and> b \<notin> set (depends_on t) then depends_on t @ [b] else depends_on t)
             \<and> blocks t' = (if k = b \<and> a \<notin> set (blocks t) then blocks t @ [a] else blocks t)"
  proof cases
    case 1
    with k t t' d show ?thesis by auto
  next
    case 2
    with k t t' d show ?thesis by auto
  next
    case 3
    with k other [of k] show ?thesis by auto
  qed
qed

lemma remove_dependency_lists:
  assumes "remove_dependency m a b now = (None, m')"
    and "get_task m' k = Some t'"
  shows "\<exists>t. get_task m k = Some t
             \<and> depends_on t' = (if k = a then remove1 b (depends_on t) else depends_on t)
             \<and> blocks t' = (if k = b then remove1 a (blocks t) else blocks t)"
proof -
  let ?f1 = "\<lambda>t. t\<lparr>depends_on := remove1 b (depends_on t), updated_at := now\<rparr>"
  let ?f2 = "\<lambda>t. t\<lparr>blocks := remove1 a (blocks t), updated_at := now\<rparr>"
  from assms(1) obtain ta tb where t: "get_task m a = Some ta" "get_task m b = Some tb"
    by (auto simp: remove_dependency_def split: option.splits)
  let ?c1 = "b \<in> set (depends_on ta)" and ?c2 = "a \<in> set (blocks tb)"
  define m1 where "m1 = (if ?c1 then AList.map_entry a ?f1 m else m)"
  from assms(1) t have m': "m' = (if ?c2 then AList.map_entry b ?f2 m1 else m1)"
    by (auto simp: remove_dependency_def Let_def m1_def)
  have g1: "get_task m1 k = (if k = a then map_option (if ?c1 then ?f1 else id) (get_task m a) else get_task m k)" for k
    unfolding m1_def by (rule get_task_if_map_entry)
  have g2: "get_task m' k = (if k = b then map_option (if ?c2 then ?f2 else id) (get_task m1 b) else get_task m1 k)" for k
    unfolding m' by (rule get_task_if_map_entry)
  from assms(2) t show ?thesis
    by (auto simp: g2 g1 remove1_idem split: if_splits)
qed

lemma create_task_get:
  assumes "create_task cfg m task = (Inr r, m')"
  shows "get_task m' k = (if k = tid task then Some task else get_task m k)"
  using assms
  by (auto simp: create_task_def Let_def get_task_def update_conv' split: if_splits)

lemma AList_update_fresh: "k \<notin> fst ` set m \<Longrightarrow> AList.update k v m = m @ [(k, v)]"
  by (induction m) auto

lemma load_state_fresh:
  "distinct (map fst doc) \<Longrightarrow> fst ` set doc \<inter> fst ` set m = {} \<Longrightarrow> load_state m doc = m @ doc"
proof (induction doc arbitrary: m)
  case Nil
  then show ?case by (simp add: load_state_def)
next
  case (Cons e doc)
  obtain k t where e: "e = (k, t)" by (cases e)
  from Cons.prems e have fresh: "k \<notin> fst ` set m" by auto
  from Cons.prems e have "distinct (map fst doc)" "fst ` set doc \<inter> fst ` set (m @ [(k, t)]) = {}"
    by auto
  then have "load_state (m @ [(k, t)]) doc = (m @ [(k, t)]) @ doc" by (rule Cons.IH)
  with fresh e show ?case by (simp add: load_state_def AList_update_fresh)
qed


lemma fold_setattr_keeps_edges:
  "keeps_edges ups \<Longrightarrow>
     depends_on (fold setattr ups t) = depends_on t \<and> blocks (fold setattr ups t) = blocks t"
proof (induction ups arbitrary: t)
  case Nil
  then show ?case by simp
next
  case (Cons u ups)
  then show ?case by (cases u) (auto simp: keeps_edges_def)
qed

lemma update_task_lists:
  assumes "update_task m k ups now = (Inr r, m')" "keeps_edges ups" "get_task m' x = Some t'"
  shows "\<exists>t. get_task m x = Some t \<and> depends_on t' = depends_on t \<and> blocks t' = blocks t"
proof -
  from assms(1) obtain t where t: "get_task m k = Some t"
    by (auto simp: update_task_def split: option.splits)
  from update_task_Some [OF t, of ups now] assms(1) have
    m': "m' = AList.update k r m"
    and r: "r = (let t2 = (fold setattr ups t)\<lparr>updated_at := now\<rparr>
                 in if status t2 = COMPLETED \<and> completed_at t2 = None
                    then t2\<lparr>completed_at := Some now\<rparr> else t2)"
    by auto
  from r fold_setattr_keeps_edges [OF assms(2), of t]
  have e: "depends_on r = depends_on t" "blocks r = blocks t" by (auto simp: Let_def)
  show ?thesis
  proof (cases "x = k")
    case True
    with assms(3) m' have "t' = r" by (simp add: get_task_update)
    with True t e show ?thesis by simp
  next
    case False
    with assms(3) m' show ?thesis by (simp add: get_task_update)
  qed
qed

lemma update_task_preserves_inverse:
  assumes "inverse_edges m" "update_task m k ups now = (Inr r, m')" "keeps_edges ups"
  shows "inverse_edges m'"
  unfolding inverse_edges_iff
proof (intro allI impI)
  fix x y tx ty
  assume "get_task m' x = Some tx" "get_task m' y = Some ty"
  with update_task_lists [OF assms(2,3)] obtain tx0 ty0 where
    "get_task m x = Some tx0" "depends_on tx = depends_on tx0"
    "get_task m y = Some ty0" "blocks ty = blocks ty0" by blast
  with assms(1) show "y \<in> set (depends_on tx) \<longleftrightarrow> x \<in> set (blocks ty)"
    unfolding inverse_edges_iff by auto
qed

lemma get_task_delete:
  "get_task (AList.delete k m) x = (if x = k then None else get_task m x)"
  by (simp add: get_task_def delete_conv')

lemma delete_task_preserves_inverse:
  assumes "inverse_edges m"
  shows "inverse_edges (snd (delete_task m k))"
  using assms unfolding inverse_edges_iff
  by (auto simp: delete_task_def get_task_delete split: if_splits)

text \<open>
  Claim C6, as amended. \<open>add_dependency\<close> preserves the exact-inverse relation and the
  absence of repeated ids; \<open>remove_dependency\<close> preserves both on a store whose edge lists
  hold no id twice; \<open>create_task\<close> preserves the inverse relation when the created task
  has empty \<open>depends_on\<close> and \<open>blocks\<close> and no stored task lists its id; \<open>load_state\<close>
  into an empty store yields the relation when the document itself satisfies it;
  \<open>update_task\<close> preserves it when the update assigns neither edge list; \<open>delete_task\<close>
  preserves it. \<open>create_task\<close> with pre-filled edge lists does not preserve it, see the
  counterexample below.
\<close>

theorem edge_inverse_preserved:
  "(inverse_edges m \<and> add_dependency cfg m a b now = (None, m1) \<longrightarrow> inverse_edges m1)
 \<and> (distinct_edges m \<and> add_dependency cfg m a b now = (None, m1) \<longrightarrow> distinct_edges m1)
 \<and> (inverse_edges m \<and> distinct_edges m \<and> remove_dependency m a b now = (None, m2)
       \<longrightarrow> inverse_edges m2 \<and> distinct_edges m2)
 \<and> (inverse_edges m \<and> create_task cfg m task = (Inr r, m3)
      \<and> depends_on task = [] \<and> blocks task = []
      \<and> (\<forall>k t. get_task m k = Some t \<longrightarrow> tid task \<notin> set (depends_on t) \<and> tid task \<notin> set (blocks t))
       \<longrightarrow> inverse_edges m3)
 \<and> (inverse_edges doc \<and> distinct (map fst doc) \<longrightarrow> inverse_edges (load_state [] doc))
 \<and> (inverse_edges m \<and> update_task m k ups now = (Inr r', m4) \<and> keeps_edges ups
       \<longrightarrow> inverse_edges m4)
 \<and> (inverse_edges m \<longrightarrow> inverse_edges (snd (delete_task m k)))"
proof -
  have p1: "inverse_edges m1" if "inverse_edges m \<and> add_dependency cfg m a b now = (None, m1)"
  proof -
  from that have inv: "inverse_edges m" and ok: "add_dependency cfg m a b now = (None, m1)" by auto
  show "inverse_edges m1"
    unfolding inverse_edges_iff
  proof (intro allI impI)
    fix x y tx ty
    assume "get_task m1 x = Some tx" "get_task m1 y = Some ty"
    with add_dependency_lists [OF ok] obtain tx0 ty0 where
      x: "get_task m x = Some tx0"
         "depends_on tx = (if x = a \<and> b \<notin> set (depends_on tx0) then depends_on tx0 @ [b] else depends_on tx0)"
      and y: "get_task m y = Some ty0"
         "blocks ty = (if y = b \<and> a \<notin> set (blocks ty0) then blocks ty0 @ [a] else blocks ty0)"
      by blast
    from inv x(1) y(1) have "y \<in> set (depends_on tx0) \<longleftrightarrow> x \<in> set (blocks ty0)"
      unfolding inverse_edges_iff by blast
    with x(2) y(2) show "y \<in> set (depends_on tx) \<longleftrightarrow> x \<in> set (blocks ty)"
      by (auto split: if_splits)
  qed
  qed
  have p2: "distinct_edges m1" if "distinct_edges m \<and> add_dependency cfg m a b now = (None, m1)"
  proof -
  from that have d: "distinct_edges m" and ok: "add_dependency cfg m a b now = (None, m1)" by auto
  show "distinct_edges m1"
    unfolding distinct_edges_iff
  proof (intro allI impI)
    fix x tx
    assume "get_task m1 x = Some tx"
    with add_dependency_lists(2) [OF ok] obtain tx0 where
      x: "get_task m x = Some tx0"
         "depends_on tx = (if x = a \<and> b \<notin> set (depends_on tx0) then depends_on tx0 @ [b] else depends_on tx0)"
         "blocks tx = (if x = b \<and> a \<notin> set (blocks tx0) then blocks tx0 @ [a] else blocks tx0)"
      by blast
    from d x(1) have "distinct (depends_on tx0) \<and> distinct (blocks tx0)"
      unfolding distinct_edges_iff by blast
    with x(2,3) add_dependency_lists(1) [OF ok]
    show "distinct (depends_on tx) \<and> distinct (blocks tx)" by simp
  qed
  qed
  have p3: "inverse_edges m2 \<and> distinct_edges m2"
    if "inverse_edges m \<and> distinct_edges m \<and> remove_dependency m a b now = (None, m2)"
  proof -
  from that have inv: "inverse_edges m" and d: "distinct_edges m"
    and ok: "remove_dependency m a b now = (None, m2)" by auto
  have "inverse_edges m2"
    unfolding inverse_edges_iff
  proof (intro allI impI)
    fix x y tx ty
    assume "get_task m2 x = Some tx" "get_task m2 y = Some ty"
    with remove_dependency_lists [OF ok] obtain tx0 ty0 where
      x: "get_task m x = Some tx0"
         "depends_on tx = (if x = a then remove1 b (depends_on tx0) else depends_on tx0)"
      and y: "get_task m y = Some ty0"
         "blocks ty = (if y = b then remove1 a (blocks ty0) else blocks ty0)"
      by blast
    from inv x(1) y(1) have i: "y \<in> set (depends_on tx0) \<longleftrightarrow> x \<in> set (blocks ty0)"
      unfolding inverse_edges_iff by blast
    from d x(1) y(1) have "distinct (depends_on tx0)" "distinct (blocks ty0)"
      unfolding distinct_edges_iff by blast+
    with i x(2) y(2) show "y \<in> set (depends_on tx) \<longleftrightarrow> x \<in> set (blocks ty)"
      by (auto split: if_splits)
  qed
  moreover have "distinct_edges m2"
    unfolding distinct_edges_iff
  proof (intro allI impI)
    fix x tx
    assume "get_task m2 x = Some tx"
    with remove_dependency_lists [OF ok] obtain tx0 where
      x: "get_task m x = Some tx0"
         "depends_on tx = (if x = a then remove1 b (depends_on tx0) else depends_on tx0)"
         "blocks tx = (if x = b then remove1 a (blocks tx0) else blocks tx0)"
      by blast
    from d x(1) have "distinct (depends_on tx0) \<and> distinct (blocks tx0)"
      unfolding distinct_edges_iff by blast
    with x(2,3) show "distinct (depends_on tx) \<and> distinct (blocks tx)" by simp
  qed
  ultimately show "inverse_edges m2 \<and> distinct_edges m2" ..
  qed
  have p4: "inverse_edges m3"
    if "inverse_edges m \<and> create_task cfg m task = (Inr r, m3)
      \<and> depends_on task = [] \<and> blocks task = []
      \<and> (\<forall>k t. get_task m k = Some t \<longrightarrow> tid task \<notin> set (depends_on t) \<and> tid task \<notin> set (blocks t))"
  proof -
  from that have inv: "inverse_edges m" and ok: "create_task cfg m task = (Inr r, m3)"
    and e: "depends_on task = []" "blocks task = []"
    and fresh: "\<And>k t. get_task m k = Some t \<Longrightarrow> tid task \<notin> set (depends_on t) \<and> tid task \<notin> set (blocks t)"
    by auto
  show "inverse_edges m3"
    unfolding inverse_edges_iff
  proof (intro allI impI)
    fix x y tx ty
    assume "get_task m3 x = Some tx" "get_task m3 y = Some ty"
    then have x: "if x = tid task then tx = task else get_task m x = Some tx"
      and y: "if y = tid task then ty = task else get_task m y = Some ty"
      by (auto simp: create_task_get [OF ok] split: if_splits)
    show "y \<in> set (depends_on tx) \<longleftrightarrow> x \<in> set (blocks ty)"
    proof (cases "x = tid task")
      case True
      with x y e fresh [of y ty] show ?thesis by (auto split: if_splits)
    next
      case xf: False
      show ?thesis
      proof (cases "y = tid task")
        case True
        with x y e xf fresh [of x tx] show ?thesis by (auto split: if_splits)
      next
        case False
        with xf x y inv show ?thesis unfolding inverse_edges_iff by auto
      qed
    qed
  qed
  qed
  have p5: "inverse_edges (load_state [] doc)" if "inverse_edges doc \<and> distinct (map fst doc)"
  proof -
    from that have "load_state [] doc = doc" "inverse_edges doc"
      using load_state_fresh [of doc "[]"] by auto
    then show ?thesis by simp
  qed
  have p6: "inverse_edges m4"
    if "inverse_edges m \<and> update_task m k ups now = (Inr r', m4) \<and> keeps_edges ups"
    using that update_task_preserves_inverse [of m k ups now r' m4] by blast
  have p7: "inverse_edges (snd (delete_task m k))" if "inverse_edges m"
    using that by (rule delete_task_preserves_inverse)
  from p1 p2 p3 p4 p5 p6 p7 show ?thesis by blast
qed

lemma dep_store1_add: "add_dependency TaskConfig_default dep_store1 ''c'' ''a'' 2 = (None, dep_store2)"
  by (simp add: dep_store1_def dep_store2_def store_eval)

lemma dep_store1_remove: "remove_dependency dep_store1 ''a'' ''b'' 3 = (None, dep_store3)"
  by (simp add: dep_store1_def dep_store3_def store_eval)

lemma dep_store1_create:
  "create_task TaskConfig_default dep_store1 (mk_task ''d'' PENDING MEDIUM None [] [] [])
     = (Inr (mk_task ''d'' PENDING MEDIUM None [] [] []),
        dep_store1 @ [(''d'', mk_task ''d'' PENDING MEDIUM None [] [] [])])"
  by (simp add: dep_store1_def create_task_def store_eval)

lemma dep_store1_edges: "inverse_edges dep_store1" "distinct_edges dep_store1"
  by (simp_all add: inverse_edges_def distinct_edges_def dep_store1_def store_eval)

lemma dep_store1_unreferenced:
  "\<forall>k t. get_task dep_store1 k = Some t \<longrightarrow>
      tid (mk_task ''d'' PENDING MEDIUM None [] [] []) \<notin> set (depends_on t)
    \<and> tid (mk_task ''d'' PENDING MEDIUM None [] [] []) \<notin> set (blocks t)"
  by (auto simp: dep_store1_def store_eval split: if_splits)


theorem edge_inverse_preserved_witness:
  "inverse_edges dep_store1 \<and> distinct_edges dep_store1
   \<and> add_dependency TaskConfig_default dep_store1 ''c'' ''a'' 2 = (None, dep_store2)
   \<and> inverse_edges dep_store2 \<and> distinct_edges dep_store2
   \<and> remove_dependency dep_store1 ''a'' ''b'' 3 = (None, dep_store3)
   \<and> inverse_edges dep_store3 \<and> distinct_edges dep_store3
   \<and> inverse_edges (dep_store1 @ [(''d'', mk_task ''d'' PENDING MEDIUM None [] [] [])])
   \<and> distinct (map fst dep_store1)
   \<and> inverse_edges (load_state [] dep_store1)
   \<and> keeps_edges [Set_status COMPLETED, Set_result (Some ''ok'')]
   \<and> fst (update_task dep_store1 ''b'' [Set_status COMPLETED, Set_result (Some ''ok'')] 4)
       = Inr ((mk_task ''b'' COMPLETED MEDIUM None [] [] [''a''])
               \<lparr>updated_at := 4, completed_at := Some 4, result := Some ''ok''\<rparr>)
   \<and> inverse_edges (snd (update_task dep_store1 ''b'' [Set_status COMPLETED, Set_result (Some ''ok'')] 4))
   \<and> inverse_edges (snd (delete_task dep_store1 ''c''))"
proof -
  let ?d = "mk_task ''d'' PENDING MEDIUM None [] [] []"
  let ?ups = "[Set_status COMPLETED, Set_result (Some ''ok'')]"
  let ?b' = "(mk_task ''b'' COMPLETED MEDIUM None [] [] [''a''])
               \<lparr>updated_at := 4, completed_at := Some 4, result := Some ''ok''\<rparr>"
  have k: "distinct (map fst dep_store1)" by (simp add: dep_store1_def)
  have e: "depends_on ?d = []" "blocks ?d = []" by (simp_all add: store_eval)
  have u: "keeps_edges ?ups" "fst (update_task dep_store1 ''b'' ?ups 4) = Inr ?b'"
    by (simp_all add: keeps_edges_def dep_store1_def update_task_def store_eval)
  then have u': "update_task dep_store1 ''b'' ?ups 4
                  = (Inr ?b', snd (update_task dep_store1 ''b'' ?ups 4))"
    by (simp add: prod_eq_iff)
  from edge_inverse_preserved
         [of dep_store1 TaskConfig_default "''c''" "''a''" 2 dep_store2 dep_store3
             ?d ?d "dep_store1 @ [(''d'', ?d)]" dep_store1]
    edge_inverse_preserved
         [where m = dep_store1 and a = "''a''" and b = "''b''" and now = 3 and ?m2.0 = dep_store3]
    edge_inverse_preserved
         [where m = dep_store1 and k = "''b''" and ups = ?ups and now = 4 and r' = ?b'
            and ?m4.0 = "snd (update_task dep_store1 ''b'' ?ups 4)"]
    edge_inverse_preserved [where m = dep_store1 and k = "''c''"]
    dep_store1_edges dep_store1_add dep_store1_remove dep_store1_create dep_store1_unreferenced k e u u'
  show ?thesis by simp
qed

text \<open>
  The claim as stated fails for task creation: \<open>create_task\<close> stores a task whose
  \<open>depends_on\<close> names a stored task without touching that task's \<open>blocks\<close>.
\<close>

theorem create_task_breaks_inverse_counterexample:
  "inverse_edges dep_store0
   \<and> create_task TaskConfig_default dep_store0 edge_task
       = (Inr edge_task, dep_store0 @ [(''d'', edge_task)])
   \<and> \<not> inverse_edges (dep_store0 @ [(''d'', edge_task)])"
  by (simp add: inverse_edges_def dep_store0_def edge_task_def create_task_def store_eval)

section \<open>Properties of completion propagation\<close>

lemma unblock_step_effect:
  "\<exists>m'. unblock_step now b m = Inr m'
        \<and> (\<forall>k. get_task m' k = map_option (unblocked m now {b} k) (get_task m k))"
proof (cases "get_task m b")
  case None
  then have "unblock_step now b m = Inr m" by (simp add: unblock_step_def)
  moreover have "get_task m k = map_option (unblocked m now {b} k) (get_task m k)" for k
    using None by (cases "get_task m k") (auto simp: unblocked_def)
  ultimately show ?thesis by simp
next
  case (Some t)
  show ?thesis
  proof (cases "status t = BLOCKED \<and> all_completed m (depends_on t)")
    case True
    let ?t' = "t\<lparr>status := PENDING, updated_at := now\<rparr>"
    from Some True have "unblock_step now b m = Inr (AList.update b ?t' m)"
      by (simp add: unblock_step_def update_task_def Let_def)
    moreover have "get_task (AList.update b ?t' m) k = map_option (unblocked m now {b} k) (get_task m k)" for k
      using Some True by (cases "get_task m k") (auto simp: unblocked_def get_task_update)
    ultimately show ?thesis by simp
  next
    case False
    with Some have "unblock_step now b m = Inr m" by (auto simp: unblock_step_def)
    moreover have "get_task m k = map_option (unblocked m now {b} k) (get_task m k)" for k
      using Some False by (cases "get_task m k") (auto simp: unblocked_def)
    ultimately show ?thesis by simp
  qed
qed

lemma all_completed_cong:
  assumes "\<And>i. task_completed m' i = task_completed m i"
  shows "all_completed m' ids = all_completed m ids"
proof -
  from assms have "task_completed m' = task_completed m" by (intro ext)
  then show ?thesis by (simp add: all_completed_def)
qed

lemma task_completed_unblocked:
  assumes "\<And>k. get_task m' k = map_option (unblocked m now ks k) (get_task m k)"
  shows "task_completed m' i = task_completed m i"
  using assms [of i]
  by (cases "get_task m i") (auto simp: task_completed_def unblocked_def)

lemma unblock_loop_effect:
  "\<exists>m'. unblock_loop now bs m = Inr m'
        \<and> (\<forall>k. get_task m' k = map_option (unblocked m now (set bs) k) (get_task m k))"
proof (induction bs arbitrary: m)
  case Nil
  have "get_task m k = map_option (unblocked m now {} k) (get_task m k)" for k
    by (cases "get_task m k") (auto simp: unblocked_def)
  then show ?case by simp
next
  case (Cons b bs)
  from unblock_step_effect [of now b m] obtain m1 where
    s: "unblock_step now b m = Inr m1"
    and g1: "\<And>k. get_task m1 k = map_option (unblocked m now {b} k) (get_task m k)" by blast
  from Cons.IH [of m1] obtain m' where
    l: "unblock_loop now bs m1 = Inr m'"
    and g2: "\<And>k. get_task m' k = map_option (unblocked m1 now (set bs) k) (get_task m1 k)" by blast
  have ac: "all_completed m1 ids = all_completed m ids" for ids
    by (rule all_completed_cong) (rule task_completed_unblocked [OF g1])
  have "get_task m' k = map_option (unblocked m now (set (b # bs)) k) (get_task m k)" for k
  proof (cases "get_task m k")
    case None
    then show ?thesis by (simp add: g2 g1)
  next
    case (Some t)
    then show ?thesis
      by (auto simp: g2 g1 unblocked_def ac)
  qed
  with s l show ?case by simp
qed


text \<open>
  Claim C3. For a stored completed task, \<open>_unblock_dependent_tasks\<close> returns normally, and
  every stored task is afterwards as follows: a task listed in the \<open>blocks\<close> of the
  completed task that is BLOCKED and whose \<open>depends_on\<close> ids are all COMPLETED has become
  PENDING (with a new \<open>updated_at\<close>); every other task, in particular a dependent with an
  unmet dependency, is exactly as it was. No entry appears or disappears.
\<close>

theorem unblock_dependent_tasks_correct:
  assumes "get_task m c = Some ct"
  shows "\<exists>m'. unblock_dependent_tasks m c now = Inr m'
     \<and> (\<forall>k. get_task m k = None \<longrightarrow> get_task m' k = None)
     \<and> (\<forall>k t. get_task m k = Some t \<longrightarrow>
          get_task m' k = Some
            (if k \<in> set (blocks ct) \<and> status t = BLOCKED
                \<and> (\<forall>d \<in> set (depends_on t). \<exists>dt. get_task m d = Some dt \<and> status dt = COMPLETED)
             then t\<lparr>status := PENDING, updated_at := now\<rparr> else t))"
proof -
  from unblock_loop_effect [of now "blocks ct" m] obtain m' where
    l: "unblock_loop now (blocks ct) m = Inr m'"
    and g: "\<And>k. get_task m' k = map_option (unblocked m now (set (blocks ct)) k) (get_task m k)"
    by blast
  from assms l have "unblock_dependent_tasks m c now = Inr m'"
    by (simp add: unblock_dependent_tasks_def)
  moreover have "\<forall>k. get_task m k = None \<longrightarrow> get_task m' k = None" by (simp add: g)
  moreover have "\<forall>k t. get_task m k = Some t \<longrightarrow>
          get_task m' k = Some
            (if k \<in> set (blocks ct) \<and> status t = BLOCKED
                \<and> (\<forall>d \<in> set (depends_on t). \<exists>dt. get_task m d = Some dt \<and> status dt = COMPLETED)
             then t\<lparr>status := PENDING, updated_at := now\<rparr> else t)"
    by (simp add: g unblocked_def all_completed_iff)
  ultimately show ?thesis by blast
qed

lemma block_store_get:
  "get_task block_store ''c'' = Some (mk_task ''c'' COMPLETED MEDIUM None [] [] [''x'', ''y'', ''z''])"
  "get_task block_store ''x'' = Some (mk_task ''x'' BLOCKED MEDIUM None [] [''c''] [])"
  "get_task block_store ''y'' = Some (mk_task ''y'' BLOCKED MEDIUM None [] [''c'', ''w''] [])"
  "get_task block_store ''z'' = Some (mk_task ''z'' IN_PROGRESS MEDIUM None [] [''c''] [])"
  by (simp_all add: block_store_def get_task_def)


theorem unblock_dependent_tasks_correct_witness:
  "get_task block_store ''c'' = Some (mk_task ''c'' COMPLETED MEDIUM None [] [] [''x'', ''y'', ''z''])
   \<and> (\<exists>m'. unblock_dependent_tasks block_store ''c'' 9 = Inr m'
         \<and> get_task m' ''x'' = Some ((mk_task ''x'' PENDING MEDIUM None [] [''c''] [])\<lparr>updated_at := 9\<rparr>)
         \<and> get_task m' ''y'' = Some (mk_task ''y'' BLOCKED MEDIUM None [] [''c'', ''w''] [])
         \<and> get_task m' ''z'' = Some (mk_task ''z'' IN_PROGRESS MEDIUM None [] [''c''] []))"
proof -
  from unblock_dependent_tasks_correct [OF block_store_get(1), of 9] obtain m' where
    r: "unblock_dependent_tasks block_store ''c'' 9 = Inr m'"
    and e: "\<And>k t. get_task block_store k = Some t \<Longrightarrow>
          get_task m' k = Some
            (if k \<in> set (blocks (mk_task ''c'' COMPLETED MEDIUM None [] [] [''x'', ''y'', ''z'']))
                \<and> status t = BLOCKED
                \<and> (\<forall>d \<in> set (depends_on t). \<exists>dt. get_task block_store d = Some dt \<and> status dt = COMPLETED)
             then t\<lparr>status := PENDING, updated_at := 9\<rparr> else t)"
    by blast
  have x: "get_task m' ''x'' = Some ((mk_task ''x'' PENDING MEDIUM None [] [''c''] [])\<lparr>updated_at := 9\<rparr>)"
    using e [OF block_store_get(2)] by (simp add: block_store_def store_eval)
  have y: "get_task m' ''y'' = Some (mk_task ''y'' BLOCKED MEDIUM None [] [''c'', ''w''] [])"
    using e [OF block_store_get(3)] by (simp add: block_store_def store_eval)
  have z: "get_task m' ''z'' = Some (mk_task ''z'' IN_PROGRESS MEDIUM None [] [''c''] [])"
    using e [OF block_store_get(4)] by (simp add: block_store_def store_eval)
  from r x y z block_store_get(1) show ?thesis by blast
qed

lemma update_task_auto_complete:
  assumes "get_task m p = Some parent"
  shows "update_task m p [Set_status COMPLETED, Set_result (Some (auto_complete_result parent))] now
         = (Inr (auto_completed parent now), AList.update p (auto_completed parent now) m)"
  using assms
  by (simp add: update_task_def Let_def auto_completed_def)

lemma check_parent_completion_unfold:
  assumes "get_task m p = Some parent"
  shows "check_parent_completion m p now =
     (if status parent = IN_PROGRESS \<and> all_completed m (subtasks parent) \<and> subtasks parent \<noteq> []
      then (case parent_id parent of
              None \<Rightarrow> Inr (AList.update p (auto_completed parent now) m)
            | Some g \<Rightarrow>
                if g = [] then Inr (AList.update p (auto_completed parent now) m)
                else check_parent_completion (AList.update p (auto_completed parent now) m) g now)
      else Inr m)"
  using assms
  by (subst check_parent_completion.simps)
     (simp add: update_task_auto_complete split: option.splits)

lemma check_parent_completion_keeps:
  "\<exists>m'. check_parent_completion m p now = Inr m'
        \<and> (\<forall>k t. get_task m k = Some t \<longrightarrow> status t \<noteq> IN_PROGRESS \<longrightarrow> get_task m' k = Some t)"
proof (induction m p now rule: check_parent_completion.induct)
  case (1 m pid now)
  show ?case
  proof (cases "get_task m pid")
    case None
    then show ?thesis by (subst check_parent_completion.simps) simp
  next
    case (Some parent)
    let ?m1 = "AList.update pid (auto_completed parent now) m"
    show ?thesis
    proof (cases "status parent = IN_PROGRESS \<and> all_completed m (subtasks parent) \<and> subtasks parent \<noteq> []")
      case False
      then have "(status parent = IN_PROGRESS \<and> all_completed m (subtasks parent)
                  \<and> subtasks parent \<noteq> []) = False" by simp
      then have "check_parent_completion m pid now = Inr m"
        unfolding check_parent_completion_unfold [OF Some] by (simp only: if_False)
      then show ?thesis by simp
    next
      case True
      have keep1: "get_task ?m1 k = Some t" if "get_task m k = Some t" "status t \<noteq> IN_PROGRESS" for k t
        using that Some True by (auto simp: get_task_update)
      show ?thesis
      proof (cases "\<exists>g. parent_id parent = Some g \<and> g \<noteq> []")
        case False
        with Some True have "check_parent_completion m pid now = Inr ?m1"
          by (auto simp: check_parent_completion_unfold split: option.splits)
        with keep1 show ?thesis by simp
      next
        case True
        then obtain g where g: "parent_id parent = Some g" "g \<noteq> []"
          by blast
        from Some \<open>status parent = IN_PROGRESS \<and> all_completed m (subtasks parent) \<and> subtasks parent \<noteq> []\<close> g
        have eq: "check_parent_completion m pid now = check_parent_completion ?m1 g now"
          by (simp add: check_parent_completion_unfold)
        from "1.IH" [OF Some _ _ update_task_auto_complete [OF Some, symmetric] refl g]
          \<open>status parent = IN_PROGRESS \<and> all_completed m (subtasks parent) \<and> subtasks parent \<noteq> []\<close>
        obtain m' where r: "check_parent_completion ?m1 g now = Inr m'"
          and k: "\<And>k t. get_task ?m1 k = Some t \<Longrightarrow> status t \<noteq> IN_PROGRESS \<Longrightarrow> get_task m' k = Some t"
          by auto
        from eq r k keep1 show ?thesis by auto
      qed
    qed
  qed
qed


text \<open>
  Claim C4. For a stored parent, \<open>_check_parent_completion\<close> returns normally. If the
  parent is IN_PROGRESS, has subtasks, and all of them are COMPLETED, then in the final store
  the parent is COMPLETED with the result text "All N subtasks completed successfully"
  (N the length of its \<open>subtasks\<close>), and the call equals the same check on the parent's own
  parent, run on the store with the completed parent, when \<open>parent_id\<close> names one. If the
  parent is not IN_PROGRESS, or one of its subtasks is not COMPLETED, the store is returned
  unchanged.
\<close>

theorem check_parent_completion_correct:
  assumes "get_task m p = Some parent"
  shows "(status parent = IN_PROGRESS \<and> subtasks parent \<noteq> []
          \<and> (\<forall>s \<in> set (subtasks parent). \<exists>st. get_task m s = Some st \<and> status st = COMPLETED)
          \<longrightarrow> (\<exists>m' parent'.
                   check_parent_completion m p now = Inr m'
                 \<and> get_task m' p = Some parent' \<and> parent' = auto_completed parent now
                 \<and> status parent' = COMPLETED
                 \<and> result parent' = Some (''All '' @ str_of_nat (length (subtasks parent))
                                            @ '' subtasks completed successfully'')
                 \<and> check_parent_completion m p now =
                     (case parent_id parent of
                        None \<Rightarrow> Inr (AList.update p parent' m)
                      | Some g \<Rightarrow>
                          if g = [] then Inr (AList.update p parent' m)
                          else check_parent_completion (AList.update p parent' m) g now)))
       \<and> (\<not> (status parent = IN_PROGRESS
              \<and> (\<forall>s \<in> set (subtasks parent). \<exists>st. get_task m s = Some st \<and> status st = COMPLETED))
          \<longrightarrow> check_parent_completion m p now = Inr m)"
proof (intro conjI impI)
  let ?p' = "auto_completed parent now"
  let ?m1 = "AList.update p ?p' m"
  assume "status parent = IN_PROGRESS \<and> subtasks parent \<noteq> []
          \<and> (\<forall>s \<in> set (subtasks parent). \<exists>st. get_task m s = Some st \<and> status st = COMPLETED)"
  then have ready: "status parent = IN_PROGRESS \<and> all_completed m (subtasks parent) \<and> subtasks parent \<noteq> []"
    by (simp add: all_completed_iff)
  have p1: "get_task ?m1 p = Some ?p'" by (simp add: get_task_update)
  have st: "status ?p' = COMPLETED"
    and rs: "result ?p' = Some (''All '' @ str_of_nat (length (subtasks parent))
                                  @ '' subtasks completed successfully'')"
    by (simp_all add: auto_completed_def Let_def auto_complete_result_def)
  have eq: "check_parent_completion m p now =
              (case parent_id parent of
                 None \<Rightarrow> Inr ?m1
               | Some g \<Rightarrow> if g = [] then Inr ?m1 else check_parent_completion ?m1 g now)"
    using ready by (simp add: check_parent_completion_unfold [OF assms])
  have "\<exists>m'. check_parent_completion m p now = Inr m' \<and> get_task m' p = Some ?p'"
  proof (cases "\<exists>g. parent_id parent = Some g \<and> g \<noteq> []")
    case False
    with eq have "check_parent_completion m p now = Inr ?m1"
      by (auto split: option.splits)
    with p1 show ?thesis by simp
  next
    case True
    then obtain g where g: "parent_id parent = Some g" "g \<noteq> []" by blast
    from check_parent_completion_keeps [of ?m1 g now] obtain m' where
      "check_parent_completion ?m1 g now = Inr m'"
      "\<And>k t. get_task ?m1 k = Some t \<Longrightarrow> status t \<noteq> IN_PROGRESS \<Longrightarrow> get_task m' k = Some t"
      by blast
    with eq g p1 st show ?thesis by auto
  qed
  with eq st rs show "\<exists>m' parent'.
                   check_parent_completion m p now = Inr m'
                 \<and> get_task m' p = Some parent' \<and> parent' = auto_completed parent now
                 \<and> status parent' = COMPLETED
                 \<and> result parent' = Some (''All '' @ str_of_nat (length (subtasks parent))
                                            @ '' subtasks completed successfully'')
                 \<and> check_parent_completion m p now =
                     (case parent_id parent of
                        None \<Rightarrow> Inr (AList.update p parent' m)
                      | Some g \<Rightarrow>
                          if g = [] then Inr (AList.update p parent' m)
                          else check_parent_completion (AList.update p parent' m) g now)"
    by blast
next
  assume "\<not> (status parent = IN_PROGRESS
              \<and> (\<forall>s \<in> set (subtasks parent). \<exists>st. get_task m s = Some st \<and> status st = COMPLETED))"
  then have "\<not> (status parent = IN_PROGRESS \<and> all_completed m (subtasks parent))"
    by (simp add: all_completed_iff)
  with assms show "check_parent_completion m p now = Inr m"
    by (auto simp: check_parent_completion_unfold)
qed


lemma tree_store_p:
  "check_parent_completion tree_store ''p'' 7 = Inr
     [(''g'', (mk_task ''g'' COMPLETED MEDIUM None [''p''] [] [])
                \<lparr>updated_at := 7, completed_at := Some 7,
                  result := Some ''All 1 subtasks completed successfully''\<rparr>),
      (''p'', (mk_task ''p'' COMPLETED MEDIUM (Some ''g'') [''s'', ''t''] [] [])
                \<lparr>updated_at := 7, completed_at := Some 7,
                  result := Some ''All 2 subtasks completed successfully''\<rparr>),
      (''s'', mk_task ''s'' COMPLETED MEDIUM (Some ''p'') [] [] []),
      (''t'', mk_task ''t'' COMPLETED MEDIUM (Some ''p'') [] [] []),
      (''u'', mk_task ''u'' IN_PROGRESS MEDIUM None [''v''] [] []),
      (''v'', mk_task ''v'' PENDING MEDIUM (Some ''u'') [] [] [])]"
  by (simp add: tree_store_def check_parent_completion.simps update_task_def all_completed_def
        task_completed_def auto_complete_result_def str_of_nat.simps digit_char_def store_eval)

lemma tree_store_get:
  "get_task tree_store ''p'' = Some (mk_task ''p'' IN_PROGRESS MEDIUM (Some ''g'') [''s'', ''t''] [] [])"
  "get_task tree_store ''u'' = Some (mk_task ''u'' IN_PROGRESS MEDIUM None [''v''] [] [])"
  by (simp_all add: tree_store_def get_task_def)


theorem check_parent_completion_correct_witness:
  "get_task tree_store ''p'' = Some (mk_task ''p'' IN_PROGRESS MEDIUM (Some ''g'') [''s'', ''t''] [] [])
   \<and> all_completed tree_store [''s'', ''t'']
   \<and> check_parent_completion tree_store ''p'' 7 = Inr tree_store_done
   \<and> map_option status (get_task tree_store_done ''p'') = Some COMPLETED
   \<and> map_option result (get_task tree_store_done ''p'')
       = Some (Some ''All 2 subtasks completed successfully'')
   \<and> map_option status (get_task tree_store_done ''g'') = Some COMPLETED
   \<and> get_task tree_store ''u'' = Some (mk_task ''u'' IN_PROGRESS MEDIUM None [''v''] [] [])
   \<and> \<not> all_completed tree_store [''v'']
   \<and> check_parent_completion tree_store ''u'' 7 = Inr tree_store"
proof -
  have a: "all_completed tree_store [''s'', ''t'']" "\<not> all_completed tree_store [''v'']"
    by (simp_all add: tree_store_def all_completed_def task_completed_def store_eval)
  have r: "check_parent_completion tree_store ''p'' 7 = Inr tree_store_done"
    unfolding tree_store_done_def by (rule tree_store_p)
  have d: "map_option status (get_task tree_store_done ''p'') = Some COMPLETED"
    "map_option result (get_task tree_store_done ''p'')
       = Some (Some ''All 2 subtasks completed successfully'')"
    "map_option status (get_task tree_store_done ''g'') = Some COMPLETED"
    by (simp_all add: tree_store_done_def store_eval)
  have u: "check_parent_completion tree_store ''u'' 7 = Inr tree_store"
    using check_parent_completion_correct [OF tree_store_get(2), of 7] a(2)
    by (simp add: all_completed_iff store_eval)
  from check_parent_completion_correct [OF tree_store_get(1), of 7] a r d u tree_store_get
  show ?thesis by simp
qed


section \<open>Execution order\<close>

text \<open>
  Claim C5 (not met by the code). In \<open>dep_store1\<close> task a depends on task b and nothing
  depends on a, so the dependency relation is acyclic. Asked to order the set that holds a
  alone, \<open>get_execution_order\<close> gives a the in-degree 1 for its dependency on b, which is
  outside the set and can never be decremented, dequeues nothing and raises the cycle error;
  the claim promises the one-element order. With b in the set the order is b, a.
\<close>

theorem get_execution_order_counts_outside_dependencies:
  "\<not> has_dependency_cycle dep_store1 ''a'' ''b''
   \<and> get_execution_order dep_store1 [''a''] = Inl DependencyCycleDetected
   \<and> map_sum id (map tid) (get_execution_order dep_store1 [''b'', ''a'']) = Inr [''b'', ''a'']"
  by (simp add: dep_store1_def get_execution_order_def build_maps_def store_eval)

section \<open>Properties of the hook engine\<close>

lemma run_hooks_append:
  "pass_hooks pre (ctx, log) = Some (ctx', log') \<Longrightarrow>
     run_hooks (pre @ rest) ctx log = run_hooks rest ctx' log'"
proof (induction pre arbitrary: ctx log)
  case Nil
  then show ?case by simp
next
  case (Cons ph pre)
  obtain pr h where ph: "ph = (pr, h)" by (cases ph)
  from Cons.prems show ?case
    unfolding ph
    by (auto simp: Let_def split: attempt.splits raised.splits bool.splits if_splits
          intro: Cons.IH)
qed

lemma run_hooks_pass:
  assumes "pass_hooks hs (ctx, log) = Some (ctx', log')"
  shows "run_hooks hs ctx log =
     (Inr \<lparr>hr_action = ''continue'', hr_reason = None, hr_modified_context = Some (ctx_data ctx'),
           hr_metadata = Some (ctx_metadata ctx')\<rparr>, log')"
  using run_hooks_append [OF assms, of "[]"] by simp

lemma trigger_run_hooks:
  assumes "enabled eng" "all_hooks eng event \<noteq> []"
  shows "trigger eng event d md = run_hooks (all_hooks eng event) (initial_context event d md) []"
  using assms by (simp add: trigger_def initial_context_def)

lemma all_hooks_sorted: "sorted (map fst (all_hooks eng event))"
  by (simp add: all_hooks_def Let_def)

text \<open>
  Claim C8, as amended. Let the engine be enabled, let the merged list of hooks for the
  event (sorted by ascending priority) be \<open>pre @ (pr, h) # post\<close>, and let the hooks of
  \<open>pre\<close> pass without blocking, leaving the context \<open>ctx\<close> and the log \<open>log\<close>.

  If \<open>h\<close> runs and returns Block, \<open>trigger\<close> returns Block and the log ends with the
  entry of \<open>h\<close>: no hook of \<open>post\<close> was called. The reason returned is the reason of
  \<open>h\<close> when that is a non-empty string, and the text "Blocked by hook" when \<open>h\<close> gave
  no reason or an empty one.

  If \<open>h\<close> raises an \<open>Exception\<close> (in \<open>should_run\<close> or in \<open>execute\<close>), the error is logged
  and \<open>trigger\<close> gives what the loop over \<open>post\<close> gives from the unchanged context: the
  later hooks run as they would after a Continue without patches, and when none of them
  blocks or lets an exception through, \<open>trigger\<close> returns Continue to its caller.

  If \<open>h\<close> raises a \<open>BaseException\<close> that is not an \<open>Exception\<close> (a cancellation, say), that
  exception leaves \<open>trigger\<close>: the caller gets no result, nothing is logged for \<open>h\<close>, and no
  hook of \<open>post\<close> was called.
\<close>

theorem trigger_block_stops_raise_continues:
  assumes "enabled eng"
    and "all_hooks eng event = pre @ (pr, h) # post"
    and "pass_hooks pre (initial_context event d md, []) = Some (ctx, log)"
  shows "sorted (map fst (pre @ (pr, h) # post))
     \<and> (should_run h ctx = Returned True \<and> execute h ctx = Returned r \<and> hr_action r = ''block''
          \<longrightarrow> (\<exists>res. trigger eng event d md = (Inr res, log @ [Executed (hook_name h)])
                 \<and> hr_action res = ''block''
                 \<and> (\<forall>s. hr_reason r = Some s \<and> s \<noteq> [] \<longrightarrow> hr_reason res = Some s)
                 \<and> (hr_reason r = None \<or> hr_reason r = Some [] \<longrightarrow>
                      hr_reason res = Some ''Blocked by hook'')))
     \<and> (should_run h ctx = Raised (Exception e)
          \<or> (should_run h ctx = Returned True \<and> execute h ctx = Raised (Exception e))
          \<longrightarrow> trigger eng event d md = run_hooks post ctx (log @ [Failed (hook_name h) e])
              \<and> (\<forall>ctx' log'.
                    pass_hooks post (ctx, log @ [Failed (hook_name h) e]) = Some (ctx', log')
                    \<longrightarrow> trigger eng event d md
                          = (Inr \<lparr>hr_action = ''continue'', hr_reason = None,
                                   hr_modified_context = Some (ctx_data ctx'),
                                   hr_metadata = Some (ctx_metadata ctx')\<rparr>, log')))
     \<and> (should_run h ctx = Raised (BaseException b)
          \<or> (should_run h ctx = Returned True \<and> execute h ctx = Raised (BaseException b))
          \<longrightarrow> trigger eng event d md = (Inl b, log))"
proof -
  from assms(2) have ne: "all_hooks eng event \<noteq> []" by simp
  have t: "trigger eng event d md = run_hooks ((pr, h) # post) ctx log"
    unfolding trigger_run_hooks [OF assms(1) ne] assms(2)
    by (rule run_hooks_append [OF assms(3)])
  have s: "sorted (map fst (pre @ (pr, h) # post))"
    using all_hooks_sorted [of eng event] unfolding assms(2) .
  have b: "\<exists>res. trigger eng event d md = (Inr res, log @ [Executed (hook_name h)])
                 \<and> hr_action res = ''block''
                 \<and> (\<forall>s. hr_reason r = Some s \<and> s \<noteq> [] \<longrightarrow> hr_reason res = Some s)
                 \<and> (hr_reason r = None \<or> hr_reason r = Some [] \<longrightarrow>
                      hr_reason res = Some ''Blocked by hook'')"
    if "should_run h ctx = Returned True \<and> execute h ctx = Returned r \<and> hr_action r = ''block''"
    using that by (auto simp: t Let_def block_reason_def)
  have c: "trigger eng event d md = run_hooks post ctx (log @ [Failed (hook_name h) e])"
    if "should_run h ctx = Raised (Exception e)
        \<or> (should_run h ctx = Returned True \<and> execute h ctx = Raised (Exception e))"
    using that by (auto simp: t)
  have c': "trigger eng event d md
              = (Inr \<lparr>hr_action = ''continue'', hr_reason = None,
                       hr_modified_context = Some (ctx_data ctx'),
                       hr_metadata = Some (ctx_metadata ctx')\<rparr>, log')"
    if "should_run h ctx = Raised (Exception e)
        \<or> (should_run h ctx = Returned True \<and> execute h ctx = Raised (Exception e))"
      and "pass_hooks post (ctx, log @ [Failed (hook_name h) e]) = Some (ctx', log')"
    for ctx' log'
    unfolding c [OF that(1)] by (rule run_hooks_pass [OF that(2)])
  have a: "trigger eng event d md = (Inl b, log)"
    if "should_run h ctx = Raised (BaseException b)
        \<or> (should_run h ctx = Returned True \<and> execute h ctx = Raised (BaseException b))"
    using that by (auto simp: t)
  from s b c c' a show ?thesis by blast
qed


lemma hook_engine0_hooks:
  "enabled hook_engine0"
  "all_hooks hook_engine0 ''E''
     = [(10, mk_hook ''guard'' (Returned (block_result (Some ''nope'')))),
        (50, mk_hook ''late'' (Returned HookResult_continue))]"
  "all_hooks hook_engine0 ''F''
     = [(10, mk_hook ''boom'' (Raised (Exception ''err''))),
        (50, mk_hook ''late'' (Returned HookResult_continue))]"
  "all_hooks hook_engine0 ''G'' = [(10, mk_hook ''silent'' (Returned (block_result None)))]"
  "all_hooks hook_engine0 ''H''
     = [(10, mk_hook ''cancelled'' (Raised (BaseException ''CancelledError''))),
        (50, mk_hook ''late'' (Returned HookResult_continue))]"
  by (simp_all add: hook_engine0_def register_def all_hooks_def Let_def)

text \<open>
  The theorem at three events of \<open>hook_engine0\<close>, each with a hook of priority 10 before
  the hook \<open>late\<close> of priority 50: on \<open>E\<close> the first hook blocks with a reason, on \<open>F\<close> it
  raises an \<open>Exception\<close> and \<open>late\<close> runs, on \<open>H\<close> it is cancelled and \<open>late\<close> does not run.
\<close>

theorem trigger_block_stops_raise_continues_witness:
  "trigger hook_engine0 ''E'' [] None
     = (Inr \<lparr>hr_action = ''block'', hr_reason = Some ''nope'', hr_modified_context = Some [],
             hr_metadata = None\<rparr>, [Executed ''guard''])
   \<and> trigger hook_engine0 ''F'' [] None
     = (Inr \<lparr>hr_action = ''continue'', hr_reason = None, hr_modified_context = Some [],
             hr_metadata = Some []\<rparr>, [Failed ''boom'' ''err'', Executed ''late''])
   \<and> trigger hook_engine0 ''H'' [] None = (Inl ''CancelledError'', [])"
proof -
  let ?guard = "mk_hook ''guard'' (Returned (block_result (Some ''nope'')))"
  let ?boom = "mk_hook ''boom'' (Raised (Exception ''err''))"
  let ?cancelled = "mk_hook ''cancelled'' (Raised (BaseException ''CancelledError''))"
  let ?late = "mk_hook ''late'' (Returned HookResult_continue)"
  have e: "all_hooks hook_engine0 ''E'' = [] @ (10, ?guard) # [(50, ?late)]"
    and f: "all_hooks hook_engine0 ''F'' = [] @ (10, ?boom) # [(50, ?late)]"
    and h: "all_hooks hook_engine0 ''H'' = [] @ (10, ?cancelled) # [(50, ?late)]"
    by (simp_all add: hook_engine0_hooks)
  have p: "pass_hooks [] (initial_context ev [] None, []) = Some (initial_context ev [] None, [])" for ev
    by simp
  from trigger_block_stops_raise_continues
         [OF hook_engine0_hooks(1) e p, of "block_result (Some ''nope'')"]
  obtain res where "trigger hook_engine0 ''E'' [] None = (Inr res, [Executed ''guard''])"
    and "hr_action res = ''block''" and "hr_reason res = Some ''nope''"
    by (auto simp: mk_hook_def block_result_def)
  moreover have "hr_modified_context (projr (fst (trigger hook_engine0 ''E'' [] None))) = Some []"
    and "hr_metadata (projr (fst (trigger hook_engine0 ''E'' [] None))) = None"
    by (simp_all add: trigger_def hook_engine0_hooks mk_hook_def block_result_def
          apply_result_def)
  ultimately have 1: "trigger hook_engine0 ''E'' [] None
     = (Inr \<lparr>hr_action = ''block'', hr_reason = Some ''nope'', hr_modified_context = Some [],
             hr_metadata = None\<rparr>, [Executed ''guard''])"
    by (cases res) simp
  from trigger_block_stops_raise_continues
         [OF hook_engine0_hooks(1) f p, of _ "''err''"]
  have 2: "trigger hook_engine0 ''F'' [] None
     = (Inr \<lparr>hr_action = ''continue'', hr_reason = None, hr_modified_context = Some [],
             hr_metadata = Some []\<rparr>, [Failed ''boom'' ''err'', Executed ''late''])"
    by (simp add: mk_hook_def initial_context_def HookResult_continue_def apply_result_def)
  from trigger_block_stops_raise_continues
         [OF hook_engine0_hooks(1) h p, of _ _ "''CancelledError''"]
  have 3: "trigger hook_engine0 ''H'' [] None = (Inl ''CancelledError'', [])"
    by (simp add: mk_hook_def)
  from 1 2 3 show ?thesis by simp
qed


text \<open>
  The claim as stated fails at two inputs. A hook that blocks without a reason: the
  result does not carry the hook's (absent) reason but the default text. A hook that
  raises a \<open>BaseException\<close> outside \<open>Exception\<close>: it is not caught, the later hook \<open>late\<close> on
  the same event does not run, and the exception reaches the caller of \<open>trigger\<close>.
\<close>

theorem trigger_reason_and_escape_counterexample:
  "all_hooks hook_engine0 ''G'' = [(10, mk_hook ''silent'' (Returned (block_result None)))]
   \<and> execute (mk_hook ''silent'' (Returned (block_result None))) (initial_context ''G'' [] None)
       = Returned (block_result None)
   \<and> hr_action (block_result None) = ''block''
   \<and> hr_reason (block_result None) = None
   \<and> trigger hook_engine0 ''G'' [] None
       = (Inr \<lparr>hr_action = ''block'', hr_reason = Some ''Blocked by hook'',
               hr_modified_context = Some [], hr_metadata = None\<rparr>, [Executed ''silent''])
   \<and> Some ''Blocked by hook'' \<noteq> hr_reason (block_result None)
   \<and> all_hooks hook_engine0 ''H''
       = [(10, mk_hook ''cancelled'' (Raised (BaseException ''CancelledError''))),
          (50, mk_hook ''late'' (Returned HookResult_continue))]
   \<and> execute (mk_hook ''cancelled'' (Raised (BaseException ''CancelledError'')))
         (initial_context ''H'' [] None) = Raised (BaseException ''CancelledError'')
   \<and> trigger hook_engine0 ''H'' [] None = (Inl ''CancelledError'', [])
   \<and> Executed ''late'' \<notin> set (snd (trigger hook_engine0 ''H'' [] None))"
  by (simp add: hook_engine0_hooks trigger_def mk_hook_def block_result_def block_reason_def
        apply_result_def)
section \<open>Result and error of an executed task\<close>

lemma unblock_dependent_tasks_keeps:
  "\<exists>m'. unblock_dependent_tasks m c now = Inr m'
        \<and> (\<forall>k t. get_task m k = Some t \<longrightarrow> status t \<noteq> BLOCKED \<longrightarrow> get_task m' k = Some t)"
proof (cases "get_task m c")
  case None
  then show ?thesis by (simp add: unblock_dependent_tasks_def)
next
  case (Some ct)
  from unblock_loop_effect [of now "blocks ct" m] obtain m' where
    l: "unblock_loop now (blocks ct) m = Inr m'"
    and g: "\<And>k. get_task m' k = map_option (unblocked m now (set (blocks ct)) k) (get_task m k)"
    by blast
  from Some l have "unblock_dependent_tasks m c now = Inr m'"
    by (simp add: unblock_dependent_tasks_def)
  moreover have "get_task m' k = Some t" if "get_task m k = Some t" "status t \<noteq> BLOCKED" for k t
    using that by (simp add: g unblocked_def)
  ultimately show ?thesis by blast
qed

lemma handle_task_completion_keeps:
  assumes "get_task m k = Some t" "status t = COMPLETED"
  shows "\<exists>m'. handle_task_completion m c now = Inr m' \<and> get_task m' k = Some t"
proof -
  from unblock_dependent_tasks_keeps [of m c now] obtain m1 where
    u: "unblock_dependent_tasks m c now = Inr m1"
    and k1: "\<And>k t. get_task m k = Some t \<Longrightarrow> status t \<noteq> BLOCKED \<Longrightarrow> get_task m1 k = Some t"
    by blast
  from k1 [OF assms(1)] assms(2) have t1: "get_task m1 k = Some t" by simp
  show ?thesis
  proof (cases "\<exists>ct p. get_task m1 c = Some ct \<and> parent_id ct = Some p \<and> p \<noteq> []")
    case False
    with u have "handle_task_completion m c now = Inr m1"
      by (auto simp: handle_task_completion_def split: option.splits)
    with t1 show ?thesis by simp
  next
    case True
    then obtain ct p where c: "get_task m1 c = Some ct" "parent_id ct = Some p" "p \<noteq> []" by blast
    from check_parent_completion_keeps [of m1 p now] obtain m' where
      r: "check_parent_completion m1 p now = Inr m'"
      and k2: "\<And>k t. get_task m1 k = Some t \<Longrightarrow> status t \<noteq> IN_PROGRESS \<Longrightarrow> get_task m' k = Some t"
      by blast
    from u c r have "handle_task_completion m c now = Inr m'"
      by (simp add: handle_task_completion_def)
    moreover from k2 [OF t1] assms(2) have "get_task m' k = Some t" by simp
    ultimately show ?thesis by simp
  qed
qed

lemma trigger_hook_tasks [simp]: "trigger_hook (orch\<lparr>tasks := m\<rparr>) ev d = trigger_hook orch ev d"
  by (simp add: trigger_hook_def)

text \<open>
  Claim C9 (not met by the code). Take any orchestrator with an interrupt controller, any
  stored task, a positive iteration bound and a \<open>task.started\<close> trigger that returns a
  result other than Block, and let an interrupt request arrive before the first round. \<open>_handle_interrupt\<close> writes the task
  back as PENDING with the error "Interrupted by user", the reasoning loop returns its
  sentinel text through its normal return, and \<open>_execute_task\<close> then marks the task
  COMPLETED with the sentinel as result. \<open>_execute_task\<close> returns normally and the task is
  terminal with both \<open>result\<close> and \<open>error\<close> set, where the claim says exactly one is.
\<close>

theorem execute_task_interrupted_both_fields:
  assumes "interrupt_controller orch = Some c"
    and "get_task (tasks orch) t = Some task"
    and "interrupt_arrives env 0 0"
    and "0 < max_iterations orch"
    and "trigger_hook orch ''task.started'' [(''task'', t)] = Inr started"
    and "hr_action started \<noteq> ''block''"
  shows "\<exists>orch' task'.
           execute_task env orch t now = (None, orch')
         \<and> get_task (tasks orch') t = Some task'
         \<and> status task' = COMPLETED
         \<and> result task' = Some ''[Execution interrupted by user]''
         \<and> error task' = Some ''Interrupted by user''"
proof -
  define t1 where "t1 = task\<lparr>status := IN_PROGRESS, updated_at := now\<rparr>"
  define m1 where "m1 = AList.update t t1 (tasks orch)"
  have u1: "update_task (tasks orch) t [Set_status IN_PROGRESS] now = (Inr t1, m1)"
    using assms(2) by (simp add: update_task_def Let_def t1_def m1_def)
  obtain n where n: "max_iterations orch = Suc n"
    using assms(4) by (cases "max_iterations orch") auto
  define c1 where "c1 = fst (request_interrupt c SOFT USER_REQUEST None now)"
  have req: "requested (state c1)" by (simp add: c1_def request_interrupt_def Let_def)
  define orch2 where "orch2 = orch\<lparr>tasks := m1, interrupt_controller := Some c1, should_stop := True\<rparr>"
  have chk: "orch_check_interrupt (arrive env 0 0 now (orch\<lparr>tasks := m1\<rparr>)) = (True, orch2)"
    using assms(1,3) req
    by (simp add: arrive_def orch_check_interrupt_def check_interrupt_def c1_def orch2_def)
  have g1: "get_task m1 t = Some t1" by (simp add: m1_def get_task_update)
  define t2 where "t2 = t1\<lparr>status := PENDING, error := Some ''Interrupted by user'', result := None,
                            updated_at := now\<rparr>"
  define m2 where "m2 = AList.update t t2 m1"
  have u2: "update_task m1 t [Set_status PENDING, Set_error (Some ''Interrupted by user''),
                              Set_result None] now = (Inr t2, m2)"
    using g1 by (simp add: update_task_def Let_def t2_def m2_def)
  define orch3 where "orch3 = orch2\<lparr>tasks := m2, interrupt_controller := Some (reset c1),
                                    should_stop := False\<rparr>"
  have hi: "handle_interrupt orch2 t None now = orch3"
    by (simp add: handle_interrupt_def orch2_def orch3_def u2 Let_def)
  have loop: "reasoning_loop env t now (max_iterations orch) 0 (orch\<lparr>tasks := m1\<rparr>)
                = (Inr ''[Execution interrupted by user]'', orch3)"
    by (simp add: n chk hi)
  have g2: "get_task m2 t = Some t2" by (simp add: m2_def get_task_update)
  have e2: "error t2 = Some ''Interrupted by user''" by (simp add: t2_def)
  from update_task_Some [OF g2, of "[Set_status COMPLETED, Set_result (Some ''[Execution interrupted by user]'')]" now]
  obtain t3 where u3: "update_task m2 t [Set_status COMPLETED,
                          Set_result (Some ''[Execution interrupted by user]'')] now
                        = (Inr t3, AList.update t t3 m2)"
    and t3: "status t3 = COMPLETED" "result t3 = Some ''[Execution interrupted by user]''"
            "error t3 = Some ''Interrupted by user''"
    using e2 by (auto simp: Let_def)
  define m3 where "m3 = AList.update t t3 m2"
  have g3: "get_task m3 t = Some t3" by (simp add: m3_def get_task_update)
  from handle_task_completion_keeps [OF g3 t3(1), of t now] obtain m4 where
    h: "handle_task_completion m3 t now = Inr m4" and g4: "get_task m4 t = Some t3" by blast
  have m3': "tasks orch3 = m2" by (simp add: orch3_def)
  have "execute_task env orch t now = (None, orch3\<lparr>tasks := m4\<rparr>)"
    using assms(5,6) u3 h
    by (simp add: execute_task_def u1 Let_def loop m3' m3_def)
  with g4 t3 show ?thesis by simp
qed


theorem execute_task_interrupted_both_fields_witness:
  "interrupt_controller engine_orch = Some (InterruptController_init 2)
   \<and> get_task (tasks engine_orch) ''t'' = Some (mk_task ''t'' PENDING MEDIUM None [] [] [])
   \<and> interrupt_arrives env_interrupted 0 0
   \<and> 0 < max_iterations engine_orch
   \<and> trigger_hook engine_orch ''task.started'' [(''task'', ''t'')] = Inr HookResult_continue
   \<and> hr_action HookResult_continue \<noteq> ''block''
   \<and> (\<exists>orch' task'.
           execute_task env_interrupted engine_orch ''t'' 5 = (None, orch')
         \<and> get_task (tasks orch') ''t'' = Some task'
         \<and> status task' = COMPLETED
         \<and> result task' = Some ''[Execution interrupted by user]''
         \<and> error task' = Some ''Interrupted by user'')"
proof -
  have a: "interrupt_controller engine_orch = Some (InterruptController_init 2)"
    and b: "get_task (tasks engine_orch) ''t'' = Some (mk_task ''t'' PENDING MEDIUM None [] [] [])"
    and c: "interrupt_arrives env_interrupted 0 0"
    and d: "0 < max_iterations engine_orch"
    and e: "trigger_hook engine_orch ''task.started'' [(''task'', ''t'')] = Inr HookResult_continue"
    and f: "hr_action HookResult_continue \<noteq> ''block''"
    by (simp_all add: engine_orch_def env_interrupted_def get_task_def trigger_hook_def
          HookResult_continue_def)
  from execute_task_interrupted_both_fields [OF a b c d e f, of 5] a b c d e f
  show ?thesis by blast
qed

text \<open>
  Three concrete runs: the interrupted run of a fresh task; a task left by
  \<open>_handle_interrupt\<close> with partial output and executed again without interruption (the
  success path sets \<open>result\<close> and never clears \<open>error\<close>); and the uninterrupted run of the
  fresh task, where only \<open>result\<close> is set.
\<close>

lemmas engine_eval = execute_task_def fail_task_def trigger_hook_def arrive_def orch_check_interrupt_def
  handle_interrupt_def end_turn_result_def reasoning_text_def update_task_def
  handle_task_completion_def unblock_dependent_tasks_def request_interrupt_def check_interrupt_def
  reset_def InterruptController_init_def InterruptState_default_def List.map_filter_def
  HookResult_continue_def

lemma execute_task_concrete_runs:
  "(case execute_task env_interrupted engine_orch ''t'' 5 of
      (exn, orch) \<Rightarrow>
        exn = None
        \<and> map_option status (get_task (tasks orch) ''t'') = Some COMPLETED
        \<and> map_option result (get_task (tasks orch) ''t'') = Some (Some ''[Execution interrupted by user]'')
        \<and> map_option error (get_task (tasks orch) ''t'') = Some (Some ''Interrupted by user''))
   \<and> (case execute_task env_quiet (handle_interrupt engine_orch ''t'' (Some ''partial'') 3) ''t'' 5 of
      (exn, orch) \<Rightarrow>
        exn = None
        \<and> map_option status (get_task (tasks orch) ''t'') = Some COMPLETED
        \<and> map_option result (get_task (tasks orch) ''t'') = Some (Some ''done'')
        \<and> map_option error (get_task (tasks orch) ''t'') = Some (Some ''Interrupted by user''))
   \<and> (case execute_task env_quiet engine_orch ''t'' 5 of
      (exn, orch) \<Rightarrow>
        exn = None
        \<and> map_option status (get_task (tasks orch) ''t'') = Some COMPLETED
        \<and> map_option result (get_task (tasks orch) ''t'') = Some (Some ''done'')
        \<and> map_option error (get_task (tasks orch) ''t'') = Some None)"
  by (simp add: engine_orch_def env_interrupted_def env_quiet_def answer_done_def engine_eval
        store_eval numeral_nat)



text \<open>
  When the \<open>task.started\<close> trigger is left by an exception (a hook was cancelled, say),
  \<open>_execute_task\<close> is left by it too: the \<open>except Exception\<close> branch does not run, the task
  is not marked FAILED and stays IN_PROGRESS.
\<close>

lemma execute_task_started_hook_escapes:
  assumes "get_task (tasks orch) t = Some task"
    and "trigger_hook orch ''task.started'' [(''task'', t)] = Inl e"
  shows "execute_task env orch t now
     = (Some e, orch\<lparr>tasks := AList.update t (task\<lparr>status := IN_PROGRESS, updated_at := now\<rparr>)
                                (tasks orch)\<rparr>)"
  using assms by (simp add: execute_task_def update_task_def Let_def)

end
